theory Spec2Isabelle
  imports Main "HOL-Library.Sublist"
begin

section \<open>ome\_merge: merging labelled pull requests across submodules\<close>

text \<open>
  A shallow embedding of \<^verbatim>\<open>ome_merge.py\<close>. Text is modelled by Isabelle strings, that
  is lists of 8-bit characters, as for the 8-bit strings of the Python 2 the script is
  written in. Everything outside the script (the git executable, the hosting API, the
  working directory of the process) is a parameter of the model.
\<close>

subsection \<open>String operations of the Python library used by the script\<close>

text \<open>\<^verbatim>\<open>s.lower()\<close>: the letters A to Z are mapped to a to z, all else is kept.\<close>

definition lower_char :: "char \<Rightarrow> char" where
  "lower_char c =
     (case map_of (zip ''ABCDEFGHIJKLMNOPQRSTUVWXYZ'' ''abcdefghijklmnopqrstuvwxyz'') c of
        None \<Rightarrow> c
      | Some l \<Rightarrow> l)"

definition lower :: "string \<Rightarrow> string" where
  "lower s = map lower_char s"

text \<open>\<^verbatim>\<open>s.startswith(p)\<close> and \<^verbatim>\<open>s.endswith(p)\<close>.\<close>

definition startswith :: "string \<Rightarrow> string \<Rightarrow> bool" where
  "startswith s p = (take (length p) s = p)"

definition endswith :: "string \<Rightarrow> string \<Rightarrow> bool" where
  "endswith s p = (length p \<le> length s \<and> drop (length s - length p) s = p)"

text \<open>\<^verbatim>\<open>sep.join(xs)\<close>.\<close>

fun join :: "string \<Rightarrow> string list \<Rightarrow> string" where
  "join sep [] = []"
| "join sep [x] = x"
| "join sep (x # y # ys) = x @ sep @ join sep (y # ys)"

text \<open>
  \<^verbatim>\<open>s.split(c)\<close> for a separator of one character: the pieces between the separators,
  always at least one piece.
\<close>

fun split_on :: "char \<Rightarrow> string \<Rightarrow> string list" where
  "split_on c [] = [[]]"
| "split_on c (x # xs) =
     (if x = c then [] # split_on c xs
      else (case split_on c xs of [] \<Rightarrow> [[x]] | p # ps \<Rightarrow> (x # p) # ps))"

text \<open>
  \<^verbatim>\<open>s.splitlines()\<close> on an 8-bit string: a line ends at a line feed, at a carriage
  return, or at a carriage return followed by a line feed; the line ends are dropped and
  there is no empty last line.
\<close>

definition LF :: char where "LF = CHR 0x0A"
definition CR :: char where "CR = CHR 0x0D"

fun splitlines_from :: "string \<Rightarrow> string \<Rightarrow> string list" where
  "splitlines_from cur [] = (if cur = [] then [] else [cur])"
| "splitlines_from cur [x] = (if x = CR \<or> x = LF then [cur] else [cur @ [x]])"
| "splitlines_from cur (x # y # ys) =
     (if x = CR \<and> y = LF then cur # splitlines_from [] ys
      else if x = CR \<or> x = LF then cur # splitlines_from [] (y # ys)
      else splitlines_from (cur @ [x]) (y # ys))"

definition splitlines :: "string \<Rightarrow> string list" where
  "splitlines s = splitlines_from [] s"

text \<open>
  \<^verbatim>\<open>s.replace(old, new)\<close>: the occurrences of \<open>old\<close> are replaced from left to right,
  without overlap. For an empty \<open>old\<close> Python puts \<open>new\<close> around every character.
\<close>

function replace :: "string \<Rightarrow> string \<Rightarrow> string \<Rightarrow> string" where
  "replace old new s =
     (if old = [] then new @ concat (map (\<lambda>c. c # new) s)
      else if s = [] then []
      else if startswith s old then new @ replace old new (drop (length old) s)
      else hd s # replace old new (tl s))"
  by pat_completeness auto
termination
  by (relation "measure (\<lambda>(old, new, s). length s)") auto

declare replace.simps [simp del]

text \<open>\<^verbatim>\<open>s.strip()\<close>: white space is removed at both ends.\<close>

definition is_space :: "char \<Rightarrow> bool" where
  "is_space c = (c \<in> set [CHR '' '', CHR 0x09, CHR 0x0A, CHR 0x0B, CHR 0x0C, CHR 0x0D])"

definition strip :: "string \<Rightarrow> string" where
  "strip s = rev (dropWhile is_space (rev (dropWhile is_space s)))"

text \<open>\<^verbatim>\<open>"%s" % n\<close> for an integer: its decimal digits, with a sign when negative.\<close>

fun str_nat :: "nat \<Rightarrow> string" where
  "str_nat n =
     (if n < 10 then [''0123456789'' ! n] else str_nat (n div 10) @ [''0123456789'' ! (n mod 10)])"

declare str_nat.simps [simp del]

definition str_int :: "int \<Rightarrow> string" where
  "str_int i = (if i < 0 then CHR ''-'' # str_nat (nat (- i)) else str_nat (nat i))"

text \<open>
  Truth value of an optional list, as in \<^verbatim>\<open>if include:\<close>: the command line gives
  \<^verbatim>\<open>None\<close> for an option that is absent and a list, maybe empty, for one that is given.
\<close>

definition truthy :: "'a list option \<Rightarrow> bool" where
  "truthy xs = (case xs of None \<Rightarrow> False | Some ys \<Rightarrow> ys \<noteq> [])"

definition items_of :: "'a list option \<Rightarrow> 'a list" where
  "items_of xs = (case xs of None \<Rightarrow> [] | Some ys \<Rightarrow> ys)"


text \<open>A dictionary kept as a list of pairs with distinct keys: \<^verbatim>\<open>d[k] = v\<close>.\<close>

fun dict_set :: "'k \<Rightarrow> 'v \<Rightarrow> ('k \<times> 'v) list \<Rightarrow> ('k \<times> 'v) list" where
  "dict_set k v [] = [(k, v)]"
| "dict_set k v (kv # kvs) = (if fst kv = k then (k, v) # kvs else kv # dict_set k v kvs)"

subsection \<open>Pull requests as the script reads them\<close>

text \<open>
  What the hosting API returns for one open pull request: the fields that the class
  \<^verbatim>\<open>Data\<close> reads from the pull request and from its issue. \<open>pr_issue_num\<close> stands for
  \<^verbatim>\<open>int(pr.issue_url.split("/")[-1])\<close>, \<open>pr_head_login\<close> for \<^verbatim>\<open>pr.head.user.login\<close>,
  \<open>pr_labels\<close> for the names of the issue's labels and \<open>pr_comments\<close> for the bodies of
  the issue's comments, in the order of \<^verbatim>\<open>get_comments()\<close>.
\<close>

record pull =
  pr_head_sha :: string
  pr_base_ref :: string
  pr_head_login :: string
  pr_title :: string
  pr_issue_url :: string
  pr_issue_num :: int
  pr_labels :: "string list"
  pr_comments :: "string list"

text \<open>The class \<^verbatim>\<open>Data\<close> and its constructor.\<close>

record data =
  pr :: pull
  sha :: string
  base :: string
  login :: string
  title :: string
  num :: int
  labels :: "string list"
  comments :: "string list"

definition Data :: "pull \<Rightarrow> data" where
  "Data p = \<lparr>pr = p, sha = pr_head_sha p, base = pr_base_ref p, login = pr_head_login p,
     title = pr_title p, num = pr_issue_num p, labels = pr_labels p,
     comments = pr_comments p\<rparr>"

text \<open>
  \<^verbatim>\<open>Data.test_directories\<close>: the two nested loops, each appending to \<open>directories\<close>.
\<close>

fun lines_loop :: "string list \<Rightarrow> string list \<Rightarrow> string list" where
  "lines_loop [] directories = directories"
| "lines_loop (line # lines) directories =
     lines_loop lines
       (if startswith line ''--test'' then directories @ [replace ''--test'' [] line]
        else directories)"

fun comments_loop :: "string list \<Rightarrow> string list \<Rightarrow> string list" where
  "comments_loop [] directories = directories"
| "comments_loop (comment # cs) directories =
     comments_loop cs (lines_loop (splitlines comment) directories)"

definition test_directories :: "data \<Rightarrow> string list" where
  "test_directories d = comments_loop (comments d) []"

subsection \<open>The filter of \<^verbatim>\<open>OME.__init__\<close>\<close>

text \<open>
  The loops over the include and the exclude filters. Each compares the lower-cased filter
  with the lower-cased labels and sets \<open>found\<close> on a match.
\<close>

fun include_loop :: "string list \<Rightarrow> data \<Rightarrow> bool \<Rightarrow> bool" where
  "include_loop [] d found = found"
| "include_loop (flt # flts) d found =
     include_loop flts d (if lower flt \<in> set (map lower (labels d)) then True else found)"

fun exclude_loop :: "string list \<Rightarrow> data \<Rightarrow> bool \<Rightarrow> bool" where
  "exclude_loop [] d found = found"
| "exclude_loop (flt # flts) d found =
     exclude_loop flts d (if lower flt \<in> set (map lower (labels d)) then False else found)"

text \<open>
  The value of \<open>found\<close> when the body of the loop over the pull requests reaches
  \<^verbatim>\<open>if found:\<close>. \<open>is_member\<close> is \<^verbatim>\<open>self.org.has_in_public_members\<close>, asked about the
  user of the head of the pull request.
\<close>

definition qualifies ::
  "(string \<Rightarrow> bool) \<Rightarrow> string \<Rightarrow> string list option \<Rightarrow> string list option \<Rightarrow> data \<Rightarrow> bool" where
  "qualifies is_member base0 incl0 excl0 d =
     (let found0 = False;
          found1 =
            (if base d = base0 then
               (if is_member (login d) then True
                else (if truthy incl0 then include_loop (items_of incl0) d found0 else found0))
             else found0);
          found2 =
            (if found1 \<and> truthy excl0 then exclude_loop (items_of excl0) d found1 else found1)
      in found2)"


subsection \<open>The world outside the script\<close>

text \<open>
  The exceptions of the model. \<open>CallFailed rc\<close> is the \<^verbatim>\<open>Exception("rc=%s" % rc)\<close> of
  \<^verbatim>\<open>OME.call\<close>; the others are raised by the Python runtime and by the API client.
\<close>

datatype error =
    CallFailed nat
  | IndexError
  | ValueError
  | AttributeError
  | NameError
  | OSError
  | ApiError string

text \<open>
  What the script does to the outside, in the order it does it: a child process run by
  \<^verbatim>\<open>call\<close> (with the directory it ran in, its command line and its exit status), a change
  of the working directory (with its success), a line written by \<^verbatim>\<open>log.error\<close> (format
  and arguments), a line printed, a list printed by \<^verbatim>\<open>print\<close>. The debug lines of
  \<^verbatim>\<open>dbg\<close> are left out. \<open>Nested\<close> groups what the pass over one submodule did: the pass
  is an object of its own, with its own calls.
\<close>

datatype event =
    Git string "string list" nat
  | Chdir string bool
  | LogError string "string list"
  | Print string
  | PrintList "string list"
  | Nested "event list"

text \<open>
  The environment. \<open>git\<close> runs a command line in a directory: it gives the exit status and
  the standard output, and moves the state \<open>'e\<close> of whatever is outside the script (the
  repositories on disk, the network). \<open>chdir\<close> gives the new working directory, or nothing
  when \<^verbatim>\<open>os.chdir\<close> fails. \<open>hash_rank\<close> fixes the order in which Python iterates over a
  set or a dictionary of strings, an order the language leaves open: the elements come by
  ascending rank. The last four are the hosting API: whether the token's user can be read,
  whether the organization is found, the open pull requests of a repository, and the public
  members of an organization.
\<close>

record 'e env =
  git :: "'e \<Rightarrow> string \<Rightarrow> string list \<Rightarrow> nat \<times> string \<times> 'e"
  chdir :: "'e \<Rightarrow> string \<Rightarrow> string \<Rightarrow> string option"
  hash_rank :: "string \<Rightarrow> nat"
  gh_user :: "string \<Rightarrow> error option"
  gh_organization :: "string \<Rightarrow> error option"
  gh_repo :: "string \<Rightarrow> string \<Rightarrow> error + pull list"
  gh_member :: "string \<Rightarrow> string \<Rightarrow> bool"

text \<open>
  The state the script works on: the outside, the working directory of the process, the
  events so far, and the side file \<^verbatim>\<open>directories.txt\<close> of each directory.
\<close>

record 'e world =
  ext :: 'e
  cwd :: string
  trace :: "event list"
  files :: "string \<Rightarrow> string option"

definition emit :: "event list \<Rightarrow> 'e world \<Rightarrow> 'e world" where
  "emit evs w = w\<lparr>trace := trace w @ evs\<rparr>"

text \<open>\<^verbatim>\<open>OME.cd\<close> and \<^verbatim>\<open>OME.call\<close>.\<close>

definition cd :: "'e env \<Rightarrow> string \<Rightarrow> 'e world \<Rightarrow> error option \<times> 'e world" where
  "cd env dir w =
     (case chdir env (ext w) (cwd w) dir of
        None \<Rightarrow> (Some OSError, emit [Chdir dir False] w)
      | Some p \<Rightarrow> (None, emit [Chdir dir True] (w\<lparr>cwd := p\<rparr>)))"

definition call :: "'e env \<Rightarrow> string list \<Rightarrow> 'e world \<Rightarrow> (error + string) \<times> 'e world" where
  "call env command w =
     (case git env (ext w) (cwd w) command of
        (rc, out, e) \<Rightarrow>
          (if rc \<noteq> 0 then Inl (CallFailed rc) else Inr out,
           emit [Git (cwd w) command rc] (w\<lparr>ext := e\<rparr>)))"

text \<open>The side file: opened for writing (which empties it), then written to.\<close>

definition open_w :: "string \<Rightarrow> 'e world \<Rightarrow> 'e world" where
  "open_w path w = w\<lparr>files := (files w)(path \<mapsto> [])\<rparr>"

definition write_to :: "string \<Rightarrow> string \<Rightarrow> 'e world \<Rightarrow> 'e world" where
  "write_to path s w =
     w\<lparr>files := (files w)(path \<mapsto> (case files w path of None \<Rightarrow> s | Some c \<Rightarrow> c @ s))\<rparr>"

fun write_directories :: "string \<Rightarrow> string list \<Rightarrow> 'e world \<Rightarrow> 'e world" where
  "write_directories path [] w = w"
| "write_directories path (directory # ds) w =
     write_directories path ds (write_to path [LF] (write_to path directory w))"

subsection \<open>The class \<^verbatim>\<open>OME\<close>\<close>

record ome =
  name :: string
  reset :: bool
  ome_base :: string
  commit_msg :: string
  incl :: "string list option"
  excl :: "string list option"
  remotes :: "(string \<times> string) list"
  token :: "string option"
  org :: string
  pulls :: "pull list"
  storage :: "data list"
  modifications :: nat
  unique_logins :: "string list"

text \<open>
  The commit message of the constructor: \<^verbatim>\<open>merge_into_\<close> and the base, then the include
  filters after \<^verbatim>\<open>+\<close> signs, then the exclude filters after \<^verbatim>\<open>-\<close> signs.
\<close>

definition make_commit_msg :: "string \<Rightarrow> string list option \<Rightarrow> string list option \<Rightarrow> string" where
  "make_commit_msg base0 incl0 excl0 =
     ''merge'' @ ''_into_'' @ base0
       @ (if truthy incl0 then ''+'' @ join ''+'' (items_of incl0) else [])
       @ (if truthy excl0 then ''-'' @ join ''-'' (items_of excl0) else [])"

text \<open>
  The lookups of the constructor. The organization is looked up outside any \<^verbatim>\<open>try\<close>; the
  repository inside one whose handler logs and goes on, so that \<^verbatim>\<open>self.repo\<close> stays
  unset. The result is the repository handle, here its open pull requests, if it was set.
\<close>

definition repo_lookup ::
  "'e env \<Rightarrow> string \<Rightarrow> string \<Rightarrow> 'e world \<Rightarrow> (error + pull list option) \<times> 'e world" where
  "repo_lookup env orgname nm w =
     (case gh_organization env orgname of
        Some e \<Rightarrow> (Inl e, w)
      | None \<Rightarrow>
          (case gh_repo env orgname nm of
             Inl e \<Rightarrow> (Inr None, emit [LogError ''Failed to find %s'' [nm]] w)
           | Inr ps \<Rightarrow> (Inr (Some ps), w)))"

text \<open>
  The loop over the pull requests. Its state is the object, the side file if it has been
  opened (the directory it was opened in) and the world.
\<close>

fun pulls_loop ::
  "'e env \<Rightarrow> string \<Rightarrow> string \<Rightarrow> string list option \<Rightarrow> string list option \<Rightarrow> pull list \<Rightarrow>
   ome \<times> string option \<times> 'e world \<Rightarrow> ome \<times> string option \<times> 'e world" where
  "pulls_loop env orgname base0 incl0 excl0 [] st = st"
| "pulls_loop env orgname base0 incl0 excl0 (p # ps) (self, directories_log, w) =
     (let d = Data p in
      if qualifies (gh_member env orgname) base0 incl0 excl0 d then
        (let self1 = self\<lparr>unique_logins := List.insert (login d) (unique_logins self),
                          storage := storage self @ [d]\<rparr>;
             directories = test_directories d
         in if directories \<noteq> [] then
              (let path = (case directories_log of None \<Rightarrow> cwd w | Some h \<Rightarrow> h);
                   w1 = (if directories_log = None then open_w path w else w)
               in pulls_loop env orgname base0 incl0 excl0 ps
                    (self1, Some path, write_directories path directories w1))
            else pulls_loop env orgname base0 incl0 excl0 ps (self1, directories_log, w))
      else pulls_loop env orgname base0 incl0 excl0 ps (self, directories_log, w))"

text \<open>
  \<^verbatim>\<open>OME.__init__\<close>, in the order of its statements: the git calls that reset and show
  the status, the commit message (with the exclude filters printed), the client of the API
  (with a token, the login of its user is read), the lookups, and the selection of the
  pull requests, sorted by number at the end. An exception leaves no object behind; the
  calls made before it stay in the world.
\<close>

definition init_status :: "'e env \<Rightarrow> bool \<Rightarrow> 'e world \<Rightarrow> error option \<times> 'e world" where
  "init_status env reset0 w =
     (case (if reset0 then call env [''git'', ''reset'', ''--hard'', ''HEAD''] w else (Inr [], w)) of
        (Inl e, w1) \<Rightarrow> (Some e, w1)
      | (Inr _, w1) \<Rightarrow>
     (case call env [''git'', ''log'', ''--oneline'', ''-n'', ''1'', ''HEAD''] w1 of
        (Inl e, w2) \<Rightarrow> (Some e, w2)
      | (Inr _, w2) \<Rightarrow>
     (case call env [''git'', ''submodule'', ''status''] w2 of
        (Inl e, w3) \<Rightarrow> (Some e, w3)
      | (Inr _, w3) \<Rightarrow> (None, w3))))"

definition init_select ::
  "'e env \<Rightarrow> string \<Rightarrow> string \<Rightarrow> string \<Rightarrow> bool \<Rightarrow> string list option \<Rightarrow> string list option \<Rightarrow>
   string option \<Rightarrow> pull list \<Rightarrow> 'e world \<Rightarrow> ome \<times> 'e world" where
  "init_select env orgname nm base0 reset0 excl0 incl0 token0 ps w =
     (let self = \<lparr>name = nm, reset = reset0, ome_base = base0,
                  commit_msg = make_commit_msg base0 incl0 excl0,
                  incl = incl0, excl = excl0, remotes = [], token = token0,
                  org = orgname, pulls = ps, storage = [], modifications = 0,
                  unique_logins = []\<rparr>
      in case pulls_loop env orgname base0 incl0 excl0 ps (self, None, w) of
           (self1, directories_log, w1) \<Rightarrow>
             (self1\<lparr>storage := sort_key num (storage self1)\<rparr>, w1))"

definition OME_init ::
  "'e env \<Rightarrow> string \<Rightarrow> string \<Rightarrow> string \<Rightarrow> bool \<Rightarrow> string list option \<Rightarrow> string list option \<Rightarrow>
   string option \<Rightarrow> 'e world \<Rightarrow> (error + ome) \<times> 'e world" where
  "OME_init env orgname nm base0 reset0 excl0 incl0 token0 w =
     (case init_status env reset0 w of
        (Some e, w3) \<Rightarrow> (Inl e, w3)
      | (None, w3) \<Rightarrow>
     (let w4 = (if truthy excl0 then emit [PrintList (items_of excl0)] w3 else w3) in
      case (case token0 of None \<Rightarrow> None | Some t \<Rightarrow> if t = [] then None else gh_user env t) of
        Some e \<Rightarrow> (Inl e, w4)
      | None \<Rightarrow>
     (case repo_lookup env orgname nm w4 of
        (Inl e, w5) \<Rightarrow> (Inl e, w5)
      | (Inr None, w5) \<Rightarrow> (Inl AttributeError, w5)
      | (Inr (Some ps), w5) \<Rightarrow>
          (case init_select env orgname nm base0 reset0 excl0 incl0 token0 ps w5 of
             (self, w6) \<Rightarrow> (Inr self, w6)))))"

text \<open>
  \<^verbatim>\<open>OME.merge\<close>. An exception leaves the object as it was changed up to there: a remote
  is in \<open>remotes\<close> as soon as its \<^verbatim>\<open>git remote add\<close> has returned.
\<close>

definition remote_key :: "string \<Rightarrow> string" where
  "remote_key user = ''merge_'' @ user"

definition remote_url :: "string \<Rightarrow> string \<Rightarrow> string" where
  "remote_url user nm = ''git://github.com/'' @ user @ ''/'' @ nm @ ''.git''"

fun users_loop ::
  "'e env \<Rightarrow> string list \<Rightarrow> ome \<Rightarrow> 'e world \<Rightarrow> error option \<times> ome \<times> 'e world" where
  "users_loop env [] self w = (None, self, w)"
| "users_loop env (user # users) self w =
     (let key = remote_key user; url = remote_url user (name self) in
      case call env [''git'', ''remote'', ''add'', key, url] w of
        (Inl e, w1) \<Rightarrow> (Some e, self, w1)
      | (Inr _, w1) \<Rightarrow>
          (let self1 = self\<lparr>remotes := dict_set key url (remotes self)\<rparr> in
           case call env [''git'', ''fetch'', key] w1 of
             (Inl e, w2) \<Rightarrow> (Some e, self1, w2)
           | (Inr _, w2) \<Rightarrow> users_loop env users self1 w2))"

definition merge_command :: "string \<Rightarrow> data \<Rightarrow> string list" where
  "merge_command msg d =
     [''git'', ''merge'', ''--no-ff'', ''-m'',
      msg @ '': PR '' @ str_int (num d) @ '' ('' @ title d @ '')'', sha d]"

fun storage_loop ::
  "'e env \<Rightarrow> data list \<Rightarrow> ome \<Rightarrow> 'e world \<Rightarrow> error option \<times> ome \<times> 'e world" where
  "storage_loop env [] self w = (None, self, w)"
| "storage_loop env (d # ds) self w =
     (case call env (merge_command (commit_msg self) d) w of
        (Inl e, w1) \<Rightarrow> (Some e, self, w1)
      | (Inr _, w1) \<Rightarrow>
          storage_loop env ds (self\<lparr>modifications := modifications self + 1\<rparr>) w1)"

definition merge :: "'e env \<Rightarrow> ome \<Rightarrow> 'e world \<Rightarrow> error option \<times> ome \<times> 'e world" where
  "merge env self w =
     (case users_loop env (sort_key (hash_rank env) (unique_logins self)) self w of
        (Some e, self1, w1) \<Rightarrow> (Some e, self1, w1)
      | (None, self1, w1) \<Rightarrow>
     (case storage_loop env (storage self1) self1 w1 of
        (Some e, self2, w2) \<Rightarrow> (Some e, self2, w2)
      | (None, self2, w2) \<Rightarrow>
     (case call env [''git'', ''submodule'', ''update''] w2 of
        (Inl e, w3) \<Rightarrow> (Some e, self2, w3)
      | (Inr _, w3) \<Rightarrow> (None, self2, w3))))"

text \<open>
  \<^verbatim>\<open>OME.info\<close>. Its loop reads \<^verbatim>\<open>ome.storage\<close>: \<^verbatim>\<open>ome\<close> is not a name of the method,
  so it is the variable of the module, which the script binds to the object of the
  top-level repository (\<open>None\<close> here when it is not bound).
\<close>

definition info_lines :: "data \<Rightarrow> event list" where
  "info_lines d =
     [Print (''# '' @ join '' '' (labels d)),
      Print (pr_issue_url (pr d) @ '' '' @ title d @ '' by '' @ login d @ '' for ''
             @ [CHR 0x09, CHR 0x09] @ ''[???]''),
      Print []]"

definition info :: "ome option \<Rightarrow> ome \<Rightarrow> 'e world \<Rightarrow> error option \<times> ome \<times> 'e world" where
  "info global_ome self w =
     (case global_ome of
        None \<Rightarrow> (Some NameError, self, w)
      | Some ome \<Rightarrow> (None, self, emit (concat (map info_lines (storage ome))) w))"

text \<open>
  \<^verbatim>\<open>OME.cleanup\<close>: the handler of the \<^verbatim>\<open>try\<close> in the loop catches the exception of
  \<^verbatim>\<open>call\<close>, logs and lets the loop go on.
\<close>

fun remotes_loop :: "'e env \<Rightarrow> (string \<times> string) list \<Rightarrow> 'e world \<Rightarrow> 'e world" where
  "remotes_loop env [] w = w"
| "remotes_loop env ((k, v) # kvs) w =
     (case call env [''git'', ''remote'', ''rm'', k] w of
        (Inl e, w1) \<Rightarrow> remotes_loop env kvs (emit [LogError ''Failed to remove'' [k]] w1)
      | (Inr _, w1) \<Rightarrow> remotes_loop env kvs w1)"

definition cleanup :: "'e env \<Rightarrow> ome \<Rightarrow> 'e world \<Rightarrow> 'e world" where
  "cleanup env self w =
     remotes_loop env (sort_key (\<lambda>kv. hash_rank env (fst kv)) (remotes self)) w"

subsection \<open>\<^verbatim>\<open>OME.submodules\<close>\<close>

text \<open>
  The two lines that \<^verbatim>\<open>git submodule foreach\<close> prints for a submodule: the directory
  (\<^verbatim>\<open>Entering 'dir'\<close>) and the origin URL. An index out of range and an unpacking of a
  list that is too short are the exceptions of the Python runtime.
\<close>

definition parse_dir :: "string \<Rightarrow> error + string" where
  "parse_dir line =
     (let parts = split_on CHR '' '' (strip line) in
      if length parts < 2 then Inl IndexError else Inr (butlast (tl (parts ! 1))))"

definition parse_origin :: "string \<Rightarrow> error + string \<times> string" where
  "parse_origin line =
     (let parts = split_on CHR ''/'' (strip line); sz = length parts in
      if sz < 2 then Inl ValueError
      else
        (let org0 = parts ! (sz - 2); repo0 = parts ! (sz - 1);
             org1 = (if CHR '':'' \<in> set org0 then last (split_on CHR '':'' org0) else org0);
             repo1 = (if endswith repo0 ''.git'' then take (length repo0 - 4) repo0 else repo0)
         in Inr (org1, repo1)))"

text \<open>
  The pass over one submodule, once the working directory is the submodule's: the object
  is built, reports or merges, walks its own submodules (\<open>walk\<close>), its count is added to
  the caller's, and whatever happened the remotes of the object, if it was built, are
  cleaned up. \<open>None\<close> is a walk that did not come back.
\<close>

definition sub_pass ::
  "(ome \<Rightarrow> 'e world \<Rightarrow> (error option \<times> ome \<times> 'e world) option) \<Rightarrow> 'e env \<Rightarrow> ome option \<Rightarrow> bool \<Rightarrow>
   string \<Rightarrow> string \<Rightarrow> ome \<Rightarrow> 'e world \<Rightarrow> (error option \<times> ome \<times> 'e world) option" where
  "sub_pass walk env global_ome info0 orgname nm self w =
     (case OME_init env orgname nm (ome_base self) (reset self) (excl self) (incl self)
             (token self) w of
        (Inl e, w1) \<Rightarrow> Some (Some e, self, w1)
      | (Inr ome, w1) \<Rightarrow>
     (case (if info0 then info global_ome ome w1 else merge env ome w1) of
        (Some e, ome2, w2) \<Rightarrow> Some (Some e, self, cleanup env ome2 w2)
      | (None, ome2, w2) \<Rightarrow>
     (case walk ome2 w2 of
        None \<Rightarrow> None
      | Some (Some e, ome3, w3) \<Rightarrow> Some (Some e, self, cleanup env ome3 w3)
      | Some (None, ome3, w3) \<Rightarrow>
          Some (None, self\<lparr>modifications := modifications self + modifications ome3\<rparr>,
                cleanup env ome3 w3))))"

text \<open>The events of a pass are put into one \<open>Nested\<close> event of the caller.\<close>

definition grouped ::
  "('e world \<Rightarrow> ('a \<times> 'b \<times> 'e world) option) \<Rightarrow> 'e world \<Rightarrow> ('a \<times> 'b \<times> 'e world) option" where
  "grouped f w =
     (case f (w\<lparr>trace := []\<rparr>) of
        None \<Rightarrow> None
      | Some (r, s, w1) \<Rightarrow> Some (r, s, w1\<lparr>trace := trace w @ [Nested (trace w1)]\<rparr>))"

text \<open>
  The \<^verbatim>\<open>try\<close> of the loop with its two \<^verbatim>\<open>finally\<close> blocks: into the directory, the pass,
  and back to \<open>cwd0\<close>. An exception of the way back replaces the one of the pass.
\<close>

definition sub_step ::
  "(ome \<Rightarrow> 'e world \<Rightarrow> (error option \<times> ome \<times> 'e world) option) \<Rightarrow> 'e env \<Rightarrow> ome option \<Rightarrow> bool \<Rightarrow>
   string \<Rightarrow> string \<Rightarrow> string \<Rightarrow> string \<Rightarrow> ome \<Rightarrow> 'e world \<Rightarrow>
   (error option \<times> ome \<times> 'e world) option" where
  "sub_step walk env global_ome info0 cwd0 dir orgname nm self w =
     (case (case cd env dir w of
              (Some e, w1) \<Rightarrow> Some (Some e, self, w1)
            | (None, w1) \<Rightarrow> grouped (sub_pass walk env global_ome info0 orgname nm self) w1) of
        None \<Rightarrow> None
      | Some (r, self1, w2) \<Rightarrow>
          (case cd env cwd0 w2 of
             (Some e, w3) \<Rightarrow> Some (Some e, self1, w3)
           | (None, w3) \<Rightarrow> Some (r, self1, w3)))"

text \<open>
  The \<^verbatim>\<open>while\<close> loop over the lines of the output: it runs as long as a line that is not
  empty is left and takes two lines in each round.
\<close>

fun lines_walk ::
  "(ome \<Rightarrow> 'e world \<Rightarrow> (error option \<times> ome \<times> 'e world) option) \<Rightarrow> 'e env \<Rightarrow> ome option \<Rightarrow> bool \<Rightarrow>
   string \<Rightarrow> string list \<Rightarrow> ome \<Rightarrow> 'e world \<Rightarrow> (error option \<times> ome \<times> 'e world) option" where
  "lines_walk walk env global_ome info0 cwd0 [] self w = Some (None, self, w)"
| "lines_walk walk env global_ome info0 cwd0 [l1] self w =
     (if l1 = [] then Some (None, self, w)
      else (case parse_dir l1 of
              Inl e \<Rightarrow> Some (Some e, self, w)
            | Inr dir \<Rightarrow> Some (Some IndexError, self, w)))"
| "lines_walk walk env global_ome info0 cwd0 (l1 # l2 # lines) self w =
     (if concat (l1 # l2 # lines) = [] then Some (None, self, w)
      else
        (case parse_dir l1 of
           Inl e \<Rightarrow> Some (Some e, self, w)
         | Inr dir \<Rightarrow>
        (case parse_origin l2 of
           Inl e \<Rightarrow> Some (Some e, self, w)
         | Inr (orgname, nm) \<Rightarrow>
        (case sub_step walk env global_ome info0 cwd0 dir orgname nm self w of
           None \<Rightarrow> None
         | Some (Some e, self1, w1) \<Rightarrow> Some (Some e, self1, w1)
         | Some (None, self1, w1) \<Rightarrow>
             lines_walk walk env global_ome info0 cwd0 lines self1 w1))))"

definition foreach_command :: "string list" where
  "foreach_command =
     [''git'', ''submodule'', ''foreach'', ''git config --get remote.origin.url'']"

definition commit_command :: "string \<Rightarrow> string list" where
  "commit_command msg =
     [''git'', ''commit'', ''--allow-empty'', ''-a'', ''-n'', ''-m'',
      msg @ '': Update all modules w/o hooks'']"

text \<open>
  The body of \<^verbatim>\<open>OME.submodules\<close>, with the call of the method on the object of a
  submodule as the parameter \<open>walk\<close>.
\<close>

definition submodules_body ::
  "(ome \<Rightarrow> 'e world \<Rightarrow> (error option \<times> ome \<times> 'e world) option) \<Rightarrow> 'e env \<Rightarrow> ome option \<Rightarrow> bool \<Rightarrow>
   ome \<Rightarrow> 'e world \<Rightarrow> (error option \<times> ome \<times> 'e world) option" where
  "submodules_body walk env global_ome info0 self w =
     (case call env foreach_command w of
        (Inl e, w1) \<Rightarrow> Some (Some e, self, w1)
      | (Inr out, w1) \<Rightarrow>
     (case lines_walk walk env global_ome info0 (cwd w1) (split_on LF out) self w1 of
        None \<Rightarrow> None
      | Some (Some e, self2, w2) \<Rightarrow> Some (Some e, self2, w2)
      | Some (None, self2, w2) \<Rightarrow>
          (if modifications self2 \<noteq> 0 then
             (case call env (commit_command (commit_msg self2)) w2 of
                (Inl e, w3) \<Rightarrow> Some (Some e, self2, w3)
              | (Inr _, w3) \<Rightarrow> Some (None, self2, w3))
           else Some (None, self2, w2))))"

text \<open>
  \<^verbatim>\<open>OME.submodules\<close>. Nothing in the script bounds the depth of the submodules, which
  is what git reports; the first argument bounds the depth of the recursion, and \<open>None\<close>
  is a walk that needs more.
\<close>

fun submodules ::
  "nat \<Rightarrow> 'e env \<Rightarrow> ome option \<Rightarrow> bool \<Rightarrow> ome \<Rightarrow> 'e world \<Rightarrow>
   (error option \<times> ome \<times> 'e world) option" where
  "submodules 0 env global_ome info0 self w = None"
| "submodules (Suc n) env global_ome info0 self w =
     submodules_body (submodules n env global_ome info0) env global_ome info0 self w"


subsection \<open>The script\<close>

text \<open>
  The statements of the script after its arguments are read, for a run without a build
  number: the object of the repository is built, merges unless \<^verbatim>\<open>--info\<close> is given,
  walks the submodules, and in the end, whatever happened, cleans up. The name of the
  repository comes from \<^verbatim>\<open>getRepository\<close>, which is not modelled. The variable \<^verbatim>\<open>ome\<close>
  of the module is this object; of it \<^verbatim>\<open>info\<close> reads the storage only, which no method
  changes after the constructor.
\<close>

definition script ::
  "nat \<Rightarrow> 'e env \<Rightarrow> string \<Rightarrow> string \<Rightarrow> string \<Rightarrow> bool \<Rightarrow> bool \<Rightarrow> string list option \<Rightarrow>
   string list option \<Rightarrow> string option \<Rightarrow> 'e world \<Rightarrow> (error option \<times> 'e world) option" where
  "script depth env orgname nm base0 reset0 info0 excl0 incl0 token0 w =
     (case OME_init env orgname nm base0 reset0 excl0 incl0 token0 w of
        (Inl e, w1) \<Rightarrow> Some (Some e, w1)
      | (Inr ome, w1) \<Rightarrow>
     (case (if \<not> info0 then merge env ome w1 else (None, ome, w1)) of
        (Some e, ome2, w2) \<Rightarrow> Some (Some e, cleanup env ome2 w2)
      | (None, ome2, w2) \<Rightarrow>
     (case submodules depth env (Some ome2) info0 ome2 w2 of
        None \<Rightarrow> None
      | Some (r, ome3, w3) \<Rightarrow> Some (r, cleanup env ome3 w3))))"

subsection \<open>Notions used to state the properties\<close>

text \<open>
  The condition for a merge in the words of the specification, with the labels and the
  filters compared as they are written.
\<close>

definition qualifies_by_labels ::
  "(string \<Rightarrow> bool) \<Rightarrow> string \<Rightarrow> string list option \<Rightarrow> string list option \<Rightarrow> data \<Rightarrow> bool" where
  "qualifies_by_labels is_member base0 incl0 excl0 d \<longleftrightarrow>
     base d = base0 \<and>
     (is_member (login d) \<or> set (labels d) \<inter> set (items_of incl0) \<noteq> {}) \<and>
     set (labels d) \<inter> set (items_of excl0) = {}"

text \<open>The pull requests that qualify, in the order in which the API lists them.\<close>

definition selected ::
  "'e env \<Rightarrow> string \<Rightarrow> string \<Rightarrow> string list option \<Rightarrow> string list option \<Rightarrow> pull list \<Rightarrow>
   data list" where
  "selected env orgname base0 incl0 excl0 ps =
     map Data (filter (\<lambda>p. qualifies (gh_member env orgname) base0 incl0 excl0 (Data p)) ps)"

text \<open>The object that the constructor returns for the pull requests \<open>ps\<close>.\<close>

definition new_ome ::
  "'e env \<Rightarrow> string \<Rightarrow> string \<Rightarrow> string \<Rightarrow> bool \<Rightarrow> string list option \<Rightarrow> string list option \<Rightarrow>
   string option \<Rightarrow> pull list \<Rightarrow> ome" where
  "new_ome env orgname nm base0 reset0 excl0 incl0 token0 ps =
     \<lparr>name = nm, reset = reset0, ome_base = base0,
      commit_msg = make_commit_msg base0 incl0 excl0,
      incl = incl0, excl = excl0, remotes = [], token = token0,
      org = orgname, pulls = ps,
      storage = sort_key num (selected env orgname base0 incl0 excl0 ps),
      modifications = 0,
      unique_logins =
        fold (\<lambda>d. List.insert (login d)) (selected env orgname base0 incl0 excl0 ps) []\<rparr>"

text \<open>A text file of the given lines.\<close>

definition file_lines :: "string list \<Rightarrow> string" where
  "file_lines ds = concat (map (\<lambda>d. d @ [LF]) ds)"

subsection \<open>A small run: one repository with one submodule\<close>

text \<open>
  The repository \<^verbatim>\<open>openmicroscopy\<close> in \<^verbatim>\<open>/work\<close> has five open pull requests and the
  submodule \<^verbatim>\<open>components/bioformats\<close>, whose repository has one. \<^verbatim>\<open>alice\<close> and
  \<^verbatim>\<open>carol\<close> are public members of the organization. The git commands for which \<open>bad\<close>
  holds fail with exit status 1.
\<close>

definition mk_pull :: "int \<Rightarrow> string \<Rightarrow> string \<Rightarrow> string list \<Rightarrow> string list \<Rightarrow> pull" where
  "mk_pull n user branch ls cs =
     \<lparr>pr_head_sha = ''sha'' @ str_int n, pr_base_ref = branch, pr_head_login = user,
      pr_title = ''Change '' @ str_int n,
      pr_issue_url = ''https://api.github.com/repos/o/r/issues/'' @ str_int n,
      pr_issue_num = n, pr_labels = ls, pr_comments = cs\<rparr>"

definition demo_pr7 :: pull where
  "demo_pr7 = mk_pull 7 ''alice'' ''develop'' []
     [''Please run'' @ [CR, LF] @ ''--test integration/foo'']"

definition demo_pr3 :: pull where
  "demo_pr3 = mk_pull 3 ''bob'' ''develop'' [''Include''] []"

definition demo_pr9 :: pull where
  "demo_pr9 = mk_pull 9 ''dave'' ''develop'' [''include'', ''EXCLUDE''] [''--test never'']"

definition demo_pr5 :: pull where
  "demo_pr5 = mk_pull 5 ''alice'' ''develop'' [''docs''] []"

definition demo_pr4 :: pull where
  "demo_pr4 = mk_pull 4 ''alice'' ''master'' [''include''] []"

definition demo_pr2 :: pull where
  "demo_pr2 = mk_pull 2 ''carol'' ''develop'' [] []"

definition demo_pulls :: "pull list" where
  "demo_pulls = [demo_pr7, demo_pr3, demo_pr9, demo_pr5, demo_pr4]"

definition demo_member :: "string \<Rightarrow> bool" where
  "demo_member user \<longleftrightarrow> user \<in> set [''alice'', ''carol'']"

definition demo_foreach_out :: string where
  "demo_foreach_out =
     ''Entering '' @ [CHR 0x27] @ ''components/bioformats'' @ [CHR 0x27, LF]
     @ ''git://github.com/openmicroscopy/bioformats.git'' @ [LF]"

definition demo_env :: "(string list \<Rightarrow> bool) \<Rightarrow> unit env" where
  "demo_env bad =
     \<lparr>git = (\<lambda>e dir command.
         (if bad command then 1 else 0,
          if command = foreach_command \<and> dir = ''/work'' then demo_foreach_out else [],
          e)),
      chdir = (\<lambda>e current dir.
         Some (if take 1 dir = ''/'' then dir else current @ ''/'' @ dir)),
      hash_rank = (\<lambda>s. length s),
      gh_user = (\<lambda>t. None),
      gh_organization = (\<lambda>orgname.
         if orgname = ''openmicroscopy'' then None else Some (ApiError ''404'')),
      gh_repo = (\<lambda>orgname nm.
         if nm = ''openmicroscopy'' then Inr demo_pulls
         else if nm = ''bioformats'' then Inr [demo_pr2]
         else Inl (ApiError ''404'')),
      gh_member = (\<lambda>orgname. demo_member)\<rparr>"

definition no_failure :: "string list \<Rightarrow> bool" where
  "no_failure command \<longleftrightarrow> False"

definition demo_world :: "unit world" where
  "demo_world = \<lparr>ext = (), cwd = ''/work'', trace = [], files = (\<lambda>path. None)\<rparr>"

definition demo_init :: "(string list \<Rightarrow> bool) \<Rightarrow> (error + ome) \<times> unit world" where
  "demo_init bad =
     OME_init (demo_env bad) ''openmicroscopy'' ''openmicroscopy'' ''develop'' False
       (Some [''exclude'']) (Some [''include'']) None demo_world"

subsection \<open>Notions used to state the properties of the passes\<close>

text \<open>
  The git commands of a list run one after the other, up to the first that fails: what a
  sequence of \<^verbatim>\<open>self.call\<close> statements does.
\<close>

fun run_all :: "'e env \<Rightarrow> string list list \<Rightarrow> 'e world \<Rightarrow> error option \<times> 'e world" where
  "run_all env [] w = (None, w)"
| "run_all env (command # commands) w =
     (case call env command w of
        (Inl e, w1) \<Rightarrow> (Some e, w1)
      | (Inr _, w1) \<Rightarrow> run_all env commands w1)"

text \<open>
  The command sequence of a merge pass in the words of the specification: for each user
  the remote is added and fetched, then each pull request of the storage is merged, then
  the submodules are updated.
\<close>

definition user_commands :: "string \<Rightarrow> string \<Rightarrow> string list list" where
  "user_commands nm user =
     [[''git'', ''remote'', ''add'', remote_key user, remote_url user nm],
      [''git'', ''fetch'', remote_key user]]"

definition merge_plan :: "string list \<Rightarrow> ome \<Rightarrow> string list list" where
  "merge_plan users self =
     concat (map (user_commands (name self)) users)
     @ map (merge_command (commit_msg self)) (storage self)
     @ [[''git'', ''submodule'', ''update'']]"

text \<open>
  The remotes of the repository in a directory, as far as the events tell: a remote is
  there after a \<^verbatim>\<open>git remote add\<close> of its name that succeeded in the directory, and gone
  after a \<^verbatim>\<open>git remote rm\<close> that succeeded there. The events of the passes over the
  submodules count as well, in the order in which they happened.
\<close>

fun flat :: "event \<Rightarrow> event list" where
  "flat (Nested evs) = concat (map flat evs)"
| "flat ev = [ev]"

definition remote_step :: "string \<Rightarrow> string \<Rightarrow> bool \<Rightarrow> event \<Rightarrow> bool" where
  "remote_step dir k present ev =
     (case ev of
        Git d command rc \<Rightarrow>
          if d = dir \<and> rc = 0 \<and> take 4 command = [''git'', ''remote'', ''add'', k] then True
          else if d = dir \<and> rc = 0 \<and> command = [''git'', ''remote'', ''rm'', k] then False
          else present
      | _ \<Rightarrow> present)"

definition remote_present :: "string \<Rightarrow> string \<Rightarrow> event list \<Rightarrow> bool" where
  "remote_present dir k evs = foldl (remote_step dir k) False (concat (map flat evs))"

text \<open>
  The events of a cleanup in a directory, for the remotes in the order of the loop and the
  exit status of each removal: the removal, and a line in the log when it failed.
\<close>

fun cleanup_events :: "string \<Rightarrow> (string \<times> string) list \<Rightarrow> nat list \<Rightarrow> event list" where
  "cleanup_events d ((k, v) # kvs) (rc # rcs) =
     Git d [''git'', ''remote'', ''rm'', k] rc
     # (if rc = 0 then [] else [LogError ''Failed to remove'' [k]])
     @ cleanup_events d kvs rcs"
| "cleanup_events d kvs rcs = []"

text \<open>Events among which no remote is added.\<close>

definition no_adds :: "event list \<Rightarrow> bool" where
  "no_adds evs \<longleftrightarrow> (\<forall>d k url rc. Git d [''git'', ''remote'', ''add'', k, url] rc \<notin> set evs)"

text \<open>
  The events of a walk over the submodules that belong to the walking object itself:
  changes of directory, and the grouped events of the passes.
\<close>

definition step_event :: "event \<Rightarrow> bool" where
  "step_event ev = (case ev of Chdir d ok \<Rightarrow> True | Nested sub \<Rightarrow> True | _ \<Rightarrow> False)"

text \<open>Two states of an object that differ in the count of modifications at most.\<close>

definition same_but_count :: "ome \<Rightarrow> ome \<Rightarrow> bool" where
  "same_but_count self self' \<longleftrightarrow> (\<exists>n. self' = self\<lparr>modifications := n\<rparr>)"

text \<open>
  What one call of \<^verbatim>\<open>submodules\<close> adds to the events: the command that lists the
  submodules, the events \<open>evs\<close> of the loop, and at the end \<open>tail\<close>, which is empty or the
  commit.
\<close>

definition level_events ::
  "ome \<Rightarrow> error option \<Rightarrow> ome \<Rightarrow> 'e world \<Rightarrow> 'e world \<Rightarrow> nat \<Rightarrow> event list \<Rightarrow> event list \<Rightarrow> bool" where
  "level_events self r self' w w' rc0 evs tail \<longleftrightarrow>
     trace w' = trace w @ Git (cwd w) foreach_command rc0 # evs @ tail \<and>
     list_all step_event evs \<and> same_but_count self self' \<and>
     (modifications self' = 0 \<longrightarrow> tail = []) \<and>
     (r = None \<and> modifications self' \<noteq> 0 \<longrightarrow>
        tail = [Git (cwd w') (commit_command (commit_msg self)) 0]) \<and>
     (\<forall>ev \<in> set tail. \<exists>rc. ev = Git (cwd w') (commit_command (commit_msg self)) rc) \<and>
     length tail \<le> 1"

text \<open>The lines printed, those of the passes over the submodules included.\<close>

definition printed :: "event list \<Rightarrow> string list" where
  "printed evs =
     concat (map (\<lambda>ev. case ev of Print s \<Rightarrow> [s] | _ \<Rightarrow> []) (concat (map flat evs)))"

subsection \<open>The small run, continued\<close>

text \<open>
  The object of the top-level repository, its state after the merge, the walk that follows
  the merge, the walk in \<^verbatim>\<open>--info\<close> mode, the pass over the submodule and the step of the
  loop around it, and the whole script. \<open>fetch_fails\<close> and \<open>rm_fails\<close> make the fetch and
  the removal of a remote fail.
\<close>

definition demo_top :: ome where
  "demo_top = projr (fst (demo_init no_failure))"

definition fetch_fails :: "string list \<Rightarrow> bool" where
  "fetch_fails command \<longleftrightarrow> take 2 command = [''git'', ''fetch'']"

definition rm_fails :: "string list \<Rightarrow> bool" where
  "rm_fails command \<longleftrightarrow> take 3 command = [''git'', ''remote'', ''rm'']"

definition demo_merged :: "error option \<times> ome \<times> unit world" where
  "demo_merged = merge (demo_env no_failure) demo_top (snd (demo_init no_failure))"

definition demo_walk :: "(error option \<times> ome \<times> unit world) option" where
  "demo_walk =
     submodules (Suc 1) (demo_env no_failure) (Some demo_top) False
       (fst (snd demo_merged)) (snd (snd demo_merged))"

definition demo_info_walk :: "(error option \<times> ome \<times> unit world) option" where
  "demo_info_walk =
     submodules (Suc 1) (demo_env no_failure) (Some demo_top) True demo_top
       (snd (demo_init no_failure))"

definition demo_sub_world :: "unit world" where
  "demo_sub_world =
     \<lparr>ext = (), cwd = ''/work/components/bioformats'', trace = [], files = (\<lambda>path. None)\<rparr>"

definition demo_pass ::
  "(string list \<Rightarrow> bool) \<Rightarrow> bool \<Rightarrow> (error option \<times> ome \<times> unit world) option" where
  "demo_pass bad info0 =
     sub_pass (submodules 1 (demo_env bad) (Some demo_top) info0) (demo_env bad) (Some demo_top)
       info0 ''openmicroscopy'' ''bioformats'' demo_top demo_sub_world"

definition demo_step ::
  "(string list \<Rightarrow> bool) \<Rightarrow> bool \<Rightarrow> (error option \<times> ome \<times> unit world) option" where
  "demo_step bad info0 =
     sub_step (submodules 1 (demo_env bad) (Some demo_top) info0) (demo_env bad) (Some demo_top)
       info0 ''/work'' ''components/bioformats'' ''openmicroscopy'' ''bioformats'' demo_top
       demo_world"

definition demo_script :: "(string list \<Rightarrow> bool) \<Rightarrow> bool \<Rightarrow> (error option \<times> unit world) option" where
  "demo_script bad info0 =
     script (Suc 1) (demo_env bad) ''openmicroscopy'' ''openmicroscopy'' ''develop'' False info0
       (Some [''exclude'']) (Some [''include'']) None demo_world"

text \<open>The object built for the submodule in the small run.\<close>

definition demo_sub :: ome where
  "demo_sub =
     projr (fst (OME_init (demo_env no_failure) ''openmicroscopy'' ''bioformats'' ''develop'' False
       (Some [''exclude'']) (Some [''include'']) None demo_sub_world))"


section \<open>Properties\<close>

subsection \<open>The filter\<close>

lemma include_loop_iff:
  "include_loop flts d found \<longleftrightarrow> found \<or> lower ` set flts \<inter> lower ` set (labels d) \<noteq> {}"
  by (induction flts arbitrary: found) auto

lemma exclude_loop_iff:
  "exclude_loop flts d found \<longleftrightarrow> found \<and> lower ` set flts \<inter> lower ` set (labels d) = {}"
  by (induction flts arbitrary: found) auto

lemma items_of_not_truthy: "\<not> truthy xs \<Longrightarrow> items_of xs = []"
  by (auto simp: truthy_def items_of_def split: option.splits)

lemma qualifies_folded:
  "qualifies is_member base0 incl0 excl0 d \<longleftrightarrow>
     base d = base0 \<and>
     (is_member (login d) \<or> lower ` set (labels d) \<inter> lower ` set (items_of incl0) \<noteq> {}) \<and>
     lower ` set (labels d) \<inter> lower ` set (items_of excl0) = {}"
  unfolding qualifies_def Let_def include_loop_iff exclude_loop_iff
  using items_of_not_truthy [of incl0] items_of_not_truthy [of excl0]
  by (cases "truthy incl0"; cases "truthy excl0"; simp add: Int_commute)

text \<open>
  C1, as amended. A pull request qualifies for merge if and only if its base branch is
  the target base, and the user of its head is a public member of the organization or one
  of its labels is an include filter, and none of its labels is an exclude filter; here a
  label is a filter when the two are equal after both are put in lower case. In
  particular a pull request with a label that is an include filter and a label that is an
  exclude filter does not qualify.
\<close>

theorem qualifies_iff_folded_labels:
  "(qualifies is_member base0 incl0 excl0 d \<longleftrightarrow>
      base d = base0 \<and>
      (is_member (login d) \<or> lower ` set (labels d) \<inter> lower ` set (items_of incl0) \<noteq> {}) \<and>
      lower ` set (labels d) \<inter> lower ` set (items_of excl0) = {}) \<and>
   (lower ` set (labels d) \<inter> lower ` set (items_of incl0) \<noteq> {} \<and>
    lower ` set (labels d) \<inter> lower ` set (items_of excl0) \<noteq> {} \<longrightarrow>
      \<not> qualifies is_member base0 incl0 excl0 d)"
  using qualifies_folded [of is_member base0 incl0 excl0 d] by blast

theorem qualifies_iff_folded_labels_witness:
  "lower ` set (labels (Data demo_pr9)) \<inter> lower ` set (items_of (Some [''include''])) \<noteq> {} \<and>
   lower ` set (labels (Data demo_pr9)) \<inter> lower ` set (items_of (Some [''exclude''])) \<noteq> {} \<and>
   \<not> qualifies demo_member ''develop'' (Some [''include'']) (Some [''exclude'']) (Data demo_pr9)"
proof -
  have both:
    "lower ` set (labels (Data demo_pr9)) \<inter> lower ` set (items_of (Some [''include''])) \<noteq> {} \<and>
     lower ` set (labels (Data demo_pr9)) \<inter> lower ` set (items_of (Some [''exclude''])) \<noteq> {}"
    by (simp add: Data_def demo_pr9_def mk_pull_def items_of_def lower_def lower_char_def)
  with qualifies_iff_folded_labels
         [of demo_member "''develop''" "Some [''include'']" "Some [''exclude'']" "Data demo_pr9"]
  show ?thesis by blast
qed

text \<open>
  With the labels compared as they are written the condition is another one: the pull
  request 3 of a user who is no member, with the label \<^verbatim>\<open>Include\<close>, qualifies under the
  include filter \<^verbatim>\<open>include\<close>.
\<close>

theorem qualifies_exact_labels_counterexample:
  "qualifies demo_member ''develop'' (Some [''include'']) (Some [''exclude'']) (Data demo_pr3) \<and>
   \<not> qualifies_by_labels demo_member ''develop'' (Some [''include'']) (Some [''exclude''])
        (Data demo_pr3)"
  by (simp add: qualifies_folded qualifies_by_labels_def Data_def demo_pr3_def mk_pull_def
      items_of_def demo_member_def lower_def lower_char_def)

text \<open>
  C10. The filter does not depend on the case of the letters: when the labels of a pull
  request and the include and exclude filters are replaced by strings that differ from
  them in the case of letters only (they are equal once in lower case), the pull request
  qualifies as before.
\<close>

theorem qualifies_case_insensitive:
  assumes "map lower (labels d') = map lower (labels d)"
    and "base d' = base d" and "login d' = login d"
    and "map lower (items_of incl') = map lower (items_of incl0)"
    and "map lower (items_of excl') = map lower (items_of excl0)"
  shows "qualifies is_member base0 incl' excl' d' = qualifies is_member base0 incl0 excl0 d"
proof -
  have "lower ` set (labels d') = lower ` set (labels d)"
    using assms(1) by (metis set_map)
  moreover have "lower ` set (items_of incl') = lower ` set (items_of incl0)"
    using assms(4) by (metis set_map)
  moreover have "lower ` set (items_of excl') = lower ` set (items_of excl0)"
    using assms(5) by (metis set_map)
  ultimately show ?thesis
    using assms(2,3) by (simp add: qualifies_folded)
qed

theorem qualifies_case_insensitive_witness:
  "qualifies demo_member ''develop'' (Some [''iNcLuDe'']) (Some [''EXCLUDE''])
     (Data (mk_pull 3 ''bob'' ''develop'' [''INCLUDE''] []))
   = qualifies demo_member ''develop'' (Some [''include'']) (Some [''exclude'']) (Data demo_pr3)"
  by (rule qualifies_case_insensitive)
     (simp_all add: Data_def demo_pr3_def mk_pull_def items_of_def lower_def lower_char_def)


subsection \<open>The origin URL of a submodule\<close>

lemma split_on_nonempty: "split_on c s \<noteq> []"
  by (induction s) (auto split: list.splits)

lemma split_on_none: "c \<notin> set s \<Longrightarrow> split_on c s = [s]"
  by (induction s) auto

lemma split_on_append: "split_on c (a @ c # b) = split_on c a @ split_on c b"
  by (induction a) (auto split: list.splits simp: split_on_nonempty)

lemma split_on_append_last:
  "c \<notin> set b \<Longrightarrow> split_on c (a @ b) = butlast (split_on c a) @ [last (split_on c a) @ b]"
  by (induction a) (auto split: list.splits simp: split_on_nonempty split_on_none)

lemma last_split_on: "c \<notin> set b \<Longrightarrow> last (split_on c (a @ c # b)) = b"
  by (simp add: split_on_append split_on_none)

lemma origin_parts:
  assumes "sep = CHR ''/'' \<or> sep = CHR '':''"
    and "CHR ''/'' \<notin> set orgname" and "CHR '':'' \<notin> set orgname" and "CHR ''/'' \<notin> set r"
  shows "\<exists>front org0.
           split_on CHR ''/'' (pre @ sep # orgname @ CHR ''/'' # r) = front @ [org0, r] \<and>
           (if CHR '':'' \<in> set org0 then last (split_on CHR '':'' org0) else org0) = orgname"
proof -
  have whole: "split_on CHR ''/'' (pre @ sep # orgname @ CHR ''/'' # r)
      = split_on CHR ''/'' (pre @ sep # orgname) @ [r]"
    using split_on_append [of "CHR ''/''" "pre @ sep # orgname" r] assms(4)
    by (simp add: split_on_none)
  from assms(1) show ?thesis
  proof
    assume "sep = CHR ''/''"
    then have "split_on CHR ''/'' (pre @ sep # orgname) = split_on CHR ''/'' pre @ [orgname]"
      using assms(2) by (simp add: split_on_append split_on_none)
    with whole assms(3) show ?thesis by simp
  next
    assume colon: "sep = CHR '':''"
    let ?x = "last (split_on CHR ''/'' pre)"
    have "split_on CHR ''/'' (pre @ sep # orgname)
        = butlast (split_on CHR ''/'' pre) @ [?x @ sep # orgname]"
      using split_on_append_last [of "CHR ''/''" "sep # orgname" pre] assms(2) colon by simp
    moreover have "last (split_on CHR '':'' (?x @ sep # orgname)) = orgname"
      using last_split_on [of "CHR '':''" orgname ?x] assms(3) colon by simp
    ultimately show ?thesis using whole colon by simp
  qed
qed

text \<open>
  C5. The line of an origin URL gives the organization and the repository for the slash
  form and for the colon form, and a \<^verbatim>\<open>.git\<close> at the end of the repository is dropped:
  when the line, stripped of white space, ends with a slash or a colon, then an
  organization without slash and colon, then a slash and a last part \<open>r\<close> without slash,
  the result is the organization and \<open>r\<close> without its \<^verbatim>\<open>.git\<close> suffix. So
  \<^verbatim>\<open>git@github.com:org/repo.git\<close> and \<^verbatim>\<open>https://github.com/org/repo\<close> both give
  \<^verbatim>\<open>org\<close> and \<^verbatim>\<open>repo\<close>.
\<close>

theorem parse_origin_forms:
  assumes "strip line = pre @ sep # orgname @ CHR ''/'' # r"
    and "sep = CHR ''/'' \<or> sep = CHR '':''"
    and "CHR ''/'' \<notin> set orgname" and "CHR '':'' \<notin> set orgname" and "CHR ''/'' \<notin> set r"
  shows "parse_origin line =
           Inr (orgname, if endswith r ''.git'' then take (length r - 4) r else r)"
proof -
  obtain front org0 where
    parts: "split_on CHR ''/'' (strip line) = front @ [org0, r]" and
    org: "(if CHR '':'' \<in> set org0 then last (split_on CHR '':'' org0) else org0) = orgname"
    using origin_parts [OF assms(2-5), of pre] assms(1) by auto
  have "(front @ [org0, r]) ! (length front) = org0"
    and "(front @ [org0, r]) ! Suc (length front) = r"
    by (simp_all add: nth_append)
  with parts org show ?thesis
    by (simp add: parse_origin_def Let_def)
qed

theorem parse_origin_forms_witness:
  "parse_origin ''git@github.com:org/repo.git'' = Inr (''org'', ''repo'') \<and>
   parse_origin ''https://github.com/org/repo'' = Inr (''org'', ''repo'')"
  using parse_origin_forms [of "''git@github.com:org/repo.git''" "''git@github.com''"
      "CHR '':''" "''org''" "''repo.git''"]
    parse_origin_forms [of "''https://github.com/org/repo''" "''https://github.com''"
      "CHR ''/''" "''org''" "''repo''"]
  by (simp add: strip_def is_space_def endswith_def)

subsection \<open>The constructor\<close>

lemma emit_same [simp]:
  "ext (emit evs w) = ext w" "cwd (emit evs w) = cwd w" "files (emit evs w) = files w"
  "trace (emit evs w) = trace w @ evs"
  by (simp_all add: emit_def)

lemma call_same [simp]:
  "cwd (snd (call env command w)) = cwd w" "files (snd (call env command w)) = files w"
  by (simp_all add: call_def split: prod.splits)

lemma write_directories_same [simp]:
  "ext (write_directories path ds w) = ext w"
  "cwd (write_directories path ds w) = cwd w"
  "trace (write_directories path ds w) = trace w"
  by (induction ds arbitrary: w) (simp_all add: write_to_def)

lemma write_directories_files:
  "ds \<noteq> [] \<Longrightarrow> files (write_directories path ds w) =
     (files w)(path \<mapsto> (case files w path of None \<Rightarrow> [] | Some c \<Rightarrow> c) @ file_lines ds)"
proof (induction ds arbitrary: w)
  case Nil
  then show ?case by simp
next
  case (Cons d ds)
  show ?case
  proof (cases "ds = []")
    case True
    then show ?thesis by (auto simp: write_to_def file_lines_def split: option.splits)
  next
    case False
    from Cons.IH [OF False] show ?thesis
      by (auto simp: write_to_def file_lines_def split: option.splits)
  qed
qed

lemma selected_simps [simp]:
  "selected env orgname base0 incl0 excl0 [] = []"
  "selected env orgname base0 incl0 excl0 (p # ps) =
     (if qualifies (gh_member env orgname) base0 incl0 excl0 (Data p)
      then Data p # selected env orgname base0 incl0 excl0 ps
      else selected env orgname base0 incl0 excl0 ps)"
  by (simp_all add: selected_def)

lemma pulls_loop_self:
  "fst (pulls_loop env orgname base0 incl0 excl0 ps (self, dl, w)) =
     self\<lparr>unique_logins :=
            fold (\<lambda>d. List.insert (login d)) (selected env orgname base0 incl0 excl0 ps)
              (unique_logins self),
          storage := storage self @ selected env orgname base0 incl0 excl0 ps\<rparr>"
  by (induction ps arbitrary: self dl w) (simp_all add: Let_def)

lemma pulls_loop_world:
  "ext (snd (snd (pulls_loop env orgname base0 incl0 excl0 ps (self, dl, w)))) = ext w"
  "cwd (snd (snd (pulls_loop env orgname base0 incl0 excl0 ps (self, dl, w)))) = cwd w"
  "trace (snd (snd (pulls_loop env orgname base0 incl0 excl0 ps (self, dl, w)))) = trace w"
  by (induction ps arbitrary: self dl w) (simp_all add: Let_def open_w_def)

lemma pulls_loop_files:
  "files (snd (snd (pulls_loop env orgname base0 incl0 excl0 ps (self, dl, w)))) =
     (let ds = concat (map test_directories (selected env orgname base0 incl0 excl0 ps));
          path = (case dl of None \<Rightarrow> cwd w | Some h \<Rightarrow> h);
          start = (case dl of None \<Rightarrow> []
                   | Some h \<Rightarrow> (case files w h of None \<Rightarrow> [] | Some c \<Rightarrow> c))
      in if ds = [] then files w else (files w)(path \<mapsto> start @ file_lines ds))"
proof (induction ps arbitrary: self dl w)
  case Nil
  then show ?case by simp
next
  case (Cons p ps)
  let ?t = "test_directories (Data p)"
  show ?case
  proof (cases "qualifies (gh_member env orgname) base0 incl0 excl0 (Data p) \<and> ?t \<noteq> []")
    case False
    then show ?thesis using Cons.IH [of _ dl w] by (auto simp: Let_def)
  next
    case True
    let ?path = "case dl of None \<Rightarrow> cwd w | Some h \<Rightarrow> h"
    let ?w1 = "write_directories ?path ?t (if dl = None then open_w ?path w else w)"
    have f1: "files ?w1 =
        (files w)(?path \<mapsto> (case dl of None \<Rightarrow> []
                              | Some h \<Rightarrow> (case files w h of None \<Rightarrow> [] | Some c \<Rightarrow> c))
                            @ file_lines ?t)"
      using True by (cases dl) (simp_all add: write_directories_files open_w_def)
    show ?thesis
      using True Cons.IH [of _ "Some ?path" ?w1] f1
      by (auto simp: Let_def file_lines_def fun_upd_def)
  qed
qed

lemma init_status_same:
  "cwd (snd (init_status env reset0 w)) = cwd w"
  "files (snd (init_status env reset0 w)) = files w"
proof -
  show "cwd (snd (init_status env reset0 w)) = cwd w"
    unfolding init_status_def
    by (auto split: prod.splits sum.splits dest!: arg_cong [where f = snd])
  show "files (snd (init_status env reset0 w)) = files w"
    unfolding init_status_def
    by (auto split: prod.splits sum.splits dest!: arg_cong [where f = snd])
qed

lemma repo_lookup_Some:
  "repo_lookup env orgname nm w = (Inr (Some ps), w1) \<Longrightarrow>
     gh_organization env orgname = None \<and> gh_repo env orgname nm = Inr ps \<and> w1 = w"
  by (auto simp: repo_lookup_def split: option.splits sum.splits)

lemma init_select_self:
  "fst (init_select env orgname nm base0 reset0 excl0 incl0 token0 ps w) =
     new_ome env orgname nm base0 reset0 excl0 incl0 token0 ps"
  by (simp add: init_select_def new_ome_def Let_def split_beta pulls_loop_self)

lemma init_select_world:
  "ext (snd (init_select env orgname nm base0 reset0 excl0 incl0 token0 ps w)) = ext w"
  "cwd (snd (init_select env orgname nm base0 reset0 excl0 incl0 token0 ps w)) = cwd w"
  "trace (snd (init_select env orgname nm base0 reset0 excl0 incl0 token0 ps w)) = trace w"
  by (simp_all add: init_select_def Let_def split_beta pulls_loop_world)

lemma init_select_files:
  "files (snd (init_select env orgname nm base0 reset0 excl0 incl0 token0 ps w)) =
     (let ds = concat (map test_directories (selected env orgname base0 incl0 excl0 ps))
      in if ds = [] then files w else (files w)(cwd w \<mapsto> file_lines ds))"
  by (simp add: init_select_def Let_def split_beta pulls_loop_files)

lemma pulls_new_ome [simp]:
  "pulls (new_ome env orgname nm base0 reset0 excl0 incl0 token0 ps) = ps"
  by (simp add: new_ome_def)

lemma init_select_eq:
  assumes "init_select env orgname nm base0 reset0 excl0 incl0 token0 ps w = (self, w')"
  shows "self = new_ome env orgname nm base0 reset0 excl0 incl0 token0 ps \<and>
         cwd w' = cwd w \<and> ext w' = ext w \<and> trace w' = trace w \<and>
         files w' =
           (let ds = concat (map test_directories (selected env orgname base0 incl0 excl0 ps))
            in if ds = [] then files w else (files w)(cwd w \<mapsto> file_lines ds))"
  using init_select_self [of env orgname nm base0 reset0 excl0 incl0 token0 ps w]
    init_select_world [of env orgname nm base0 reset0 excl0 incl0 token0 ps w]
    init_select_files [of env orgname nm base0 reset0 excl0 incl0 token0 ps w]
  unfolding assms by simp

lemma OME_init_Inr:
  assumes "OME_init env orgname nm base0 reset0 excl0 incl0 token0 w = (Inr self, w')"
  shows "gh_organization env orgname = None \<and> gh_repo env orgname nm = Inr (pulls self) \<and>
         self = new_ome env orgname nm base0 reset0 excl0 incl0 token0 (pulls self) \<and>
         cwd w' = cwd w \<and>
         files w' =
           (let ds = concat (map test_directories
                       (selected env orgname base0 incl0 excl0 (pulls self)))
            in if ds = [] then files w else (files w)(cwd w \<mapsto> file_lines ds))"
proof -
  obtain r3 w3 where s: "init_status env reset0 w = (r3, w3)"
    by (cases "init_status env reset0 w")
  have w3: "cwd w3 = cwd w" "files w3 = files w"
    using init_status_same [of env reset0 w] s by simp_all
  from assms s show ?thesis
    unfolding OME_init_def Let_def
    by (auto split: option.splits sum.splits prod.splits if_splits
        dest!: repo_lookup_Some init_select_eq simp: w3)
qed

subsection \<open>The side file of test directories\<close>

lemma lines_loop_eq:
  "lines_loop ls ds =
     ds @ map (replace ''--test'' []) (filter (\<lambda>l. startswith l ''--test'') ls)"
  by (induction ls arbitrary: ds) auto

lemma comments_loop_eq:
  "comments_loop cs ds =
     ds @ map (replace ''--test'' [])
            (filter (\<lambda>l. startswith l ''--test'') (concat (map splitlines cs)))"
  by (induction cs arbitrary: ds) (auto simp: lines_loop_eq)

lemma replace_no_occurrence:
  "old \<noteq> [] \<Longrightarrow> \<not> sublist old s \<Longrightarrow> replace old [] s = s"
proof (induction s)
  case Nil
  then show ?case by (simp add: replace.simps)
next
  case (Cons c s)
  have a: "\<not> startswith (c # s) old"
  proof
    assume "startswith (c # s) old"
    then have "c # s = old @ drop (length old) (c # s)"
      by (metis append_take_drop_id startswith_def)
    then have "sublist old (c # s)" by (metis sublist_append_rightI)
    with Cons.prems show False by simp
  qed
  have b: "\<not> sublist old s" using Cons.prems(2) by (meson sublist_Cons_right)
  show ?case using Cons.prems(1) a Cons.IH [OF Cons.prems(1) b]
    by (subst replace.simps) simp
qed

text \<open>
  C4, as amended. When the constructor has returned, the side file of the working
  directory holds one line for each line that begins with \<^verbatim>\<open>--test\<close> in a comment of a
  qualifying pull request, in the order of the pull requests, their comments and the lines,
  and it is untouched when there is no such line. The line written is the line of the
  comment with \<^verbatim>\<open>--test\<close> taken out: for a line with no second \<^verbatim>\<open>--test\<close> this is the
  rest of the line after the directive, with the white space that follows the directive.
\<close>

theorem test_directories_side_file:
  assumes "OME_init env orgname nm base0 reset0 excl0 incl0 token0 w = (Inr self, w')"
  shows "files w' (cwd w) =
           (let ds = concat (map test_directories
                       (selected env orgname base0 incl0 excl0 (pulls self)))
            in if ds = [] then files w (cwd w) else Some (file_lines ds)) \<and>
         (\<forall>d. test_directories d =
                map (replace ''--test'' [])
                  (filter (\<lambda>l. startswith l ''--test'') (concat (map splitlines (comments d))))) \<and>
         (\<forall>r. \<not> sublist ''--test'' r \<longrightarrow> replace ''--test'' [] (''--test'' @ r) = r)"
proof -
  have rest: "replace ''--test'' [] (''--test'' @ r) = r" if "\<not> sublist ''--test'' r" for r
    using replace_no_occurrence [of "''--test''" r] that
    by (subst replace.simps) (simp add: startswith_def)
  from OME_init_Inr [OF assms] rest show ?thesis
    by (simp add: Let_def test_directories_def comments_loop_eq)
qed

theorem test_directories_side_file_witness:
  "files (snd (demo_init no_failure)) ''/work'' = Some (file_lines ['' integration/foo'']) \<and>
   \<not> sublist ''--test'' '' integration/foo'' \<and>
   replace ''--test'' [] (''--test'' @ '' integration/foo'') = '' integration/foo''"
proof -
  obtain r w' where run: "demo_init no_failure = (r, w')"
    by (cases "demo_init no_failure")
  have "\<not> isl (fst (demo_init no_failure))" by code_simp
  with run obtain self where r: "r = Inr self" by (cases r) auto
  have ps: "pulls self = demo_pulls"
    using OME_init_Inr [OF run [unfolded demo_init_def r]] by (simp add: demo_env_def)
  have ds: "concat (map test_directories
      (selected (demo_env no_failure) ''openmicroscopy'' ''develop'' (Some [''include''])
         (Some [''exclude'']) demo_pulls)) = ['' integration/foo'']"
    by code_simp
  have no: "\<not> sublist ''--test'' '' integration/foo''"
    by (simp add: sublist_code)
  from test_directories_side_file [OF run [unfolded demo_init_def r]] no
  show ?thesis
    by (simp add: run ps ds demo_world_def)
qed

text \<open>
  In the specification the comment line \<^verbatim>\<open>--test integration/foo\<close> gives the line
  \<^verbatim>\<open>integration/foo\<close>. Pull request 7 has that line in its comment, qualifies, and the
  side file begins with a blank.
\<close>

theorem test_directive_line_counterexample:
  "''--test integration/foo'' \<in> set (splitlines (hd (comments (Data demo_pr7)))) \<and>
   files (snd (demo_init no_failure)) ''/work'' = Some ('' integration/foo'' @ [LF]) \<and>
   files (snd (demo_init no_failure)) ''/work'' \<noteq> Some (''integration/foo'' @ [LF])"
  by code_simp


subsection \<open>The commands of a merge pass\<close>

lemma call_eq:
  "call env command w = (r, w') \<Longrightarrow>
     trace w' = trace w @ [Git (cwd w) command (fst (git env (ext w) (cwd w) command))] \<and>
     cwd w' = cwd w \<and> files w' = files w \<and>
     (r = Inr (fst (snd (git env (ext w) (cwd w) command))) \<and>
        fst (git env (ext w) (cwd w) command) = 0
      \<or> r = Inl (CallFailed (fst (git env (ext w) (cwd w) command))) \<and>
        fst (git env (ext w) (cwd w) command) \<noteq> 0)"
  by (auto simp: call_def split: prod.splits if_splits)

lemma run_all_append:
  "run_all env (a @ b) w =
     (case run_all env a w of (Some e, w1) \<Rightarrow> (Some e, w1) | (None, w1) \<Rightarrow> run_all env b w1)"
  by (induction a arbitrary: w) (auto split: prod.splits sum.splits)

lemma users_loop_runs:
  "users_loop env users self w = (r, self', w') \<Longrightarrow>
     run_all env (concat (map (user_commands (name self)) users)) w = (r, w') \<and>
     name self' = name self \<and> storage self' = storage self \<and>
     commit_msg self' = commit_msg self \<and> modifications self' = modifications self"
proof (induction users arbitrary: self w)
  case Nil
  then show ?case by simp
next
  case (Cons user users)
  let ?key = "remote_key user" and ?url = "remote_url user (name self)"
  obtain r1 w1 where a: "call env [''git'', ''remote'', ''add'', ?key, ?url] w = (r1, w1)"
    by (cases "call env [''git'', ''remote'', ''add'', ?key, ?url] w")
  obtain r2 w2 where f: "call env [''git'', ''fetch'', ?key] w1 = (r2, w2)"
    by (cases "call env [''git'', ''fetch'', ?key] w1")
  let ?self1 = "self\<lparr>remotes := dict_set ?key ?url (remotes self)\<rparr>"
  show ?case
  proof (cases r1)
    case (Inl e)
    with Cons.prems a show ?thesis by (auto simp: Let_def user_commands_def)
  next
    case add: (Inr out)
    show ?thesis
    proof (cases r2)
      case (Inl e)
      with Cons.prems a f add show ?thesis by (auto simp: Let_def user_commands_def)
    next
      case (Inr out2)
      with Cons.prems a f add have "users_loop env users ?self1 w2 = (r, self', w')"
        by (simp add: Let_def)
      from Cons.IH [OF this] a f add Inr show ?thesis
        by (simp add: user_commands_def)
    qed
  qed
qed

lemma storage_loop_runs:
  "storage_loop env ds self w = (r, self', w') \<Longrightarrow>
     run_all env (map (merge_command (commit_msg self)) ds) w = (r, w') \<and>
     name self' = name self \<and> storage self' = storage self \<and>
     commit_msg self' = commit_msg self \<and> remotes self' = remotes self"
proof (induction ds arbitrary: self w)
  case Nil
  then show ?case by simp
next
  case (Cons d ds)
  obtain r1 w1 where c: "call env (merge_command (commit_msg self) d) w = (r1, w1)"
    by (cases "call env (merge_command (commit_msg self) d) w")
  show ?case
  proof (cases r1)
    case (Inl e)
    with Cons.prems c show ?thesis by auto
  next
    case (Inr out)
    with Cons.prems c
    have "storage_loop env ds (self\<lparr>modifications := modifications self + 1\<rparr>) w1 = (r, self', w')"
      by simp
    from Cons.IH [OF this] c Inr show ?thesis by simp
  qed
qed

lemma merge_runs_plan:
  assumes "merge env self w = (r, self', w')"
  shows "run_all env (merge_plan (sort_key (hash_rank env) (unique_logins self)) self) w = (r, w')"
proof -
  let ?users = "sort_key (hash_rank env) (unique_logins self)"
  obtain r1 s1 w1 where u: "users_loop env ?users self w = (r1, s1, w1)"
    by (cases "users_loop env ?users self w")
  note u' = users_loop_runs [OF u]
  show ?thesis
  proof (cases r1)
    case (Some e)
    with assms u u' show ?thesis
      by (auto simp: merge_def merge_plan_def run_all_append)
  next
    case None
    obtain r2 s2 w2 where st: "storage_loop env (storage s1) s1 w1 = (r2, s2, w2)"
      by (cases "storage_loop env (storage s1) s1 w1")
    note st' = storage_loop_runs [OF st]
    from assms u u' None st st' show ?thesis
      by (cases r2)
         (auto simp: merge_def merge_plan_def run_all_append split: prod.splits sum.splits)
  qed
qed

lemma run_all_ok:
  assumes "\<forall>e d c. fst (git env e d c) = 0"
  shows "fst (run_all env commands w) = None \<and>
         cwd (snd (run_all env commands w)) = cwd w \<and>
         trace (snd (run_all env commands w)) = trace w @ map (\<lambda>c. Git (cwd w) c 0) commands"
proof (induction commands arbitrary: w)
  case Nil
  then show ?case by simp
next
  case (Cons c commands)
  obtain rc out e where g: "git env (ext w) (cwd w) c = (rc, out, e)"
    by (cases "git env (ext w) (cwd w) c")
  with assms have rc: "rc = 0" by (metis fst_conv)
  let ?w1 = "emit [Git (cwd w) c 0] (w\<lparr>ext := e\<rparr>)"
  have "run_all env (c # commands) w = run_all env commands ?w1"
    using g rc by (simp add: call_def)
  with Cons [of ?w1] show ?case by (simp add: emit_def)
qed

lemma fold_insert_set:
  "set (fold (\<lambda>d. List.insert (f d)) ds acc) = set acc \<union> f ` set ds"
  by (induction ds arbitrary: acc) auto

lemma fold_insert_distinct:
  "distinct acc \<Longrightarrow> distinct (fold (\<lambda>d. List.insert (f d)) ds acc)"
  by (induction ds arbitrary: acc) auto

lemma Data_fields [simp]: "num (Data p) = pr_issue_num p" "login (Data p) = pr_head_login p"
  by (simp_all add: Data_def)

lemma selected_nums:
  "distinct (map pr_issue_num ps) \<Longrightarrow>
     distinct (map num (selected env orgname base0 incl0 excl0 ps))"
  by (induction ps) (auto simp: selected_def)

lemma new_ome_fields:
  "storage (new_ome env orgname nm base0 reset0 excl0 incl0 token0 ps) =
     sort_key num (selected env orgname base0 incl0 excl0 ps)"
  "unique_logins (new_ome env orgname nm base0 reset0 excl0 incl0 token0 ps) =
     fold (\<lambda>d. List.insert (login d)) (selected env orgname base0 incl0 excl0 ps) []"
  "name (new_ome env orgname nm base0 reset0 excl0 incl0 token0 ps) = nm"
  "commit_msg (new_ome env orgname nm base0 reset0 excl0 incl0 token0 ps) =
     make_commit_msg base0 incl0 excl0"
  "remotes (new_ome env orgname nm base0 reset0 excl0 incl0 token0 ps) = []"
  "modifications (new_ome env orgname nm base0 reset0 excl0 incl0 token0 ps) = 0"
  by (simp_all add: new_ome_def)

lemma demo_init_run: "demo_init no_failure = (Inr demo_top, snd (demo_init no_failure))"
proof -
  have "\<not> isl (fst (demo_init no_failure))" by code_simp
  then have "fst (demo_init no_failure) = Inr demo_top"
    by (simp add: demo_top_def)
  then show ?thesis by (metis prod.collapse)
qed

text \<open>
  C2. For an object that the constructor has returned, the merge pass runs the commands of
  this sequence one after the other (and, as every \<^verbatim>\<open>call\<close>, stops at one that fails): for
  each login of a qualifying pull request once, in some order, the remote is added and
  then fetched; then one \<^verbatim>\<open>merge --no-ff\<close> for each qualifying pull request, by ascending
  number, strictly ascending as the numbers of the pull requests of a repository differ;
  then one \<^verbatim>\<open>submodule update\<close>. When no command fails these are the commands run.
\<close>

theorem merge_command_sequence:
  assumes "OME_init env orgname nm base0 reset0 excl0 incl0 token0 w0 = (Inr self, w)"
  shows "\<exists>users.
           distinct users \<and> set users = login ` set (storage self) \<and>
           (fst (merge env self w), snd (snd (merge env self w))) =
             run_all env (merge_plan users self) w \<and>
           ((\<forall>e d c. fst (git env e d c) = 0) \<longrightarrow>
              fst (merge env self w) = None \<and>
              trace (snd (snd (merge env self w))) =
                trace w @ map (\<lambda>c. Git (cwd w) c 0) (merge_plan users self)) \<and>
           gh_repo env orgname nm = Inr (pulls self) \<and>
           storage self = sort_key num (selected env orgname base0 incl0 excl0 (pulls self)) \<and>
           sorted (map num (storage self)) \<and>
           (distinct (map pr_issue_num (pulls self)) \<longrightarrow>
              sorted_wrt (<) (map num (storage self)))"
proof -
  let ?sel = "selected env orgname base0 incl0 excl0 (pulls self)"
  let ?users = "sort_key (hash_rank env) (unique_logins self)"
  note i = OME_init_Inr [OF assms]
  from i have self: "self = new_ome env orgname nm base0 reset0 excl0 incl0 token0 (pulls self)"
    by simp
  have st: "storage self = sort_key num ?sel"
    by (subst self) (simp add: new_ome_fields)
  have ul: "unique_logins self = fold (\<lambda>d. List.insert (login d)) ?sel []"
    by (subst self) (simp add: new_ome_fields)
  have d: "distinct ?users" by (simp add: ul fold_insert_distinct)
  have s: "set ?users = login ` set (storage self)"
    by (simp add: ul st fold_insert_set)
  obtain r self' w' where m: "merge env self w = (r, self', w')"
    by (cases "merge env self w")
  note plan = merge_runs_plan [OF m]
  have run: "(fst (merge env self w), snd (snd (merge env self w))) =
      run_all env (merge_plan ?users self) w"
    using m plan by simp
  have ok: "fst (merge env self w) = None \<and>
      trace (snd (snd (merge env self w))) =
        trace w @ map (\<lambda>c. Git (cwd w) c 0) (merge_plan ?users self)"
    if "\<forall>e d c. fst (git env e d c) = 0"
    using run_all_ok [OF that, of "merge_plan ?users self" w] m plan by simp
  have sorted: "sorted (map num (storage self))" by (simp add: st)
  have strict: "sorted_wrt (<) (map num (storage self))"
    if "distinct (map pr_issue_num (pulls self))"
  proof -
    have "distinct (map num ?sel)" using that by (rule selected_nums)
    then have "distinct (map num (storage self))"
      by (simp add: st distinct_map)
    with sorted show ?thesis by (simp add: strict_sorted_iff)
  qed
  from d s run ok i st sorted strict show ?thesis by blast
qed

theorem merge_command_sequence_witness:
  "(\<forall>e d c. fst (git (demo_env no_failure) e d c) = 0) \<and>
   map pr_issue_num [demo_pr7, demo_pr3, demo_pr5] = [7, 3, 5] \<and>
   map num (storage demo_top) = [3, 5, 7] \<and>
   sorted_wrt (<) (map num (storage demo_top)) \<and>
   fst demo_merged = None \<and>
   trace (snd (snd demo_merged)) =
     trace (snd (demo_init no_failure))
     @ map (\<lambda>c. Git ''/work'' c 0) (merge_plan [''bob'', ''alice''] demo_top)"
proof -
  have ok: "\<forall>e d c. fst (git (demo_env no_failure) e d c) = 0"
    by (simp add: demo_env_def no_failure_def)
  have ps: "distinct (map pr_issue_num (pulls demo_top))" by code_simp
  from merge_command_sequence [OF demo_init_run [unfolded demo_init_def]] ok ps
  have "fst (merge (demo_env no_failure) demo_top
           (snd (OME_init (demo_env no_failure) ''openmicroscopy'' ''openmicroscopy''
                   ''develop'' False (Some [''exclude'']) (Some [''include'']) None
                   demo_world))) = None \<and>
        sorted_wrt (<) (map num (storage demo_top))"
    by blast
  then have "fst demo_merged = None" and "sorted_wrt (<) (map num (storage demo_top))"
    by (simp_all add: demo_merged_def demo_init_def)
  moreover have "map pr_issue_num [demo_pr7, demo_pr3, demo_pr5] = [7, 3, 5]" by code_simp
  moreover have "map num (storage demo_top) = [3, 5, 7]" by code_simp
  moreover have "trace (snd (snd demo_merged)) =
     trace (snd (demo_init no_failure))
     @ map (\<lambda>c. Git ''/work'' c 0) (merge_plan [''bob'', ''alice''] demo_top)"
    by code_simp
  ultimately show ?thesis using ok by blast
qed


subsection \<open>The events of the passes\<close>

lemma extends_iff:
  "(\<exists>evs. trace w' = trace w @ evs \<and> P evs) \<longleftrightarrow>
     take (length (trace w)) (trace w') = trace w \<and> P (drop (length (trace w)) (trace w'))"
  by (metis append_eq_conv_conj)

lemma no_adds_Nil [simp]: "no_adds []"
  by (simp add: no_adds_def)

lemma no_adds_append [simp]: "no_adds (a @ b) \<longleftrightarrow> no_adds a \<and> no_adds b"
  by (auto simp: no_adds_def)

lemma no_adds_Cons:
  "no_adds (ev # evs) \<longleftrightarrow>
     (\<forall>d k url rc. ev \<noteq> Git d [''git'', ''remote'', ''add'', k, url] rc) \<and> no_adds evs"
  by (auto simp: no_adds_def)

lemma no_adds_step_events: "list_all step_event evs \<Longrightarrow> no_adds evs"
  by (auto simp: no_adds_def list_all_iff step_event_def)

lemma no_adds_cleanup_events [simp]: "no_adds (cleanup_events d kvs rcs)"
  by (induction d kvs rcs rule: cleanup_events.induct) (simp_all add: no_adds_Cons)

lemma flat_cleanup_events [simp]:
  "concat (map flat (cleanup_events d kvs rcs)) = cleanup_events d kvs rcs"
  by (induction d kvs rcs rule: cleanup_events.induct) simp_all

lemma init_status_trace:
  assumes "init_status env reset0 w = (r, w')"
  shows "\<exists>evs. trace w' = trace w @ evs \<and> no_adds evs"
  unfolding extends_iff using assms unfolding init_status_def
  by (auto split: prod.splits sum.splits if_splits dest!: call_eq simp: no_adds_Cons)

lemma OME_init_trace:
  assumes "OME_init env orgname nm base0 reset0 excl0 incl0 token0 w = (r, w')"
  shows "\<exists>evs. trace w' = trace w @ evs \<and> no_adds evs"
proof -
  obtain r3 w3 where s: "init_status env reset0 w = (r3, w3)"
    by (cases "init_status env reset0 w")
  from init_status_trace [OF s] obtain evs3 where t3: "trace w3 = trace w @ evs3" "no_adds evs3"
    by blast
  show ?thesis
    unfolding extends_iff using assms s t3 unfolding OME_init_def Let_def repo_lookup_def
    by (auto split: prod.splits sum.splits option.splits if_splits dest!: init_select_eq
        simp: no_adds_Cons)
qed

lemma OME_init_remotes:
  assumes "OME_init env orgname nm base0 reset0 excl0 incl0 token0 w = (Inr ome, w')"
  shows "remotes ome = []"
proof -
  from OME_init_Inr [OF assms]
  have "ome = new_ome env orgname nm base0 reset0 excl0 incl0 token0 (pulls ome)" by simp
  then have "remotes ome =
      remotes (new_ome env orgname nm base0 reset0 excl0 incl0 token0 (pulls ome))"
    by simp
  then show ?thesis by (simp add: new_ome_fields)
qed

lemma info_trace:
  "info g self w = (r, self', w') \<Longrightarrow>
     \<exists>evs. trace w' = trace w @ evs \<and> no_adds evs \<and> self' = self \<and> cwd w' = cwd w"
  by (auto simp: info_def no_adds_def info_lines_def split: option.splits)

subsection \<open>The registry of remotes\<close>

lemma dict_set_keys [simp]: "fst ` set (dict_set k v kvs) = insert k (fst ` set kvs)"
  by (induction kvs) auto

lemma dict_set_distinct: "distinct (map fst kvs) \<Longrightarrow> distinct (map fst (dict_set k v kvs))"
  by (induction kvs) auto

lemma users_loop_registers:
  "users_loop env users self w = (r, self', w') \<Longrightarrow>
     \<exists>evs. trace w' = trace w @ evs \<and> cwd w' = cwd w \<and>
       (\<forall>d k url. Git d [''git'', ''remote'', ''add'', k, url] 0 \<in> set evs \<longrightarrow>
          k \<in> fst ` set (remotes self')) \<and>
       fst ` set (remotes self) \<subseteq> fst ` set (remotes self') \<and>
       (distinct (map fst (remotes self)) \<longrightarrow> distinct (map fst (remotes self')))"
proof (induction users arbitrary: self w)
  case Nil
  then show ?case by simp
next
  case (Cons user users)
  let ?key = "remote_key user" and ?url = "remote_url user (name self)"
  obtain r1 w1 where a: "call env [''git'', ''remote'', ''add'', ?key, ?url] w = (r1, w1)"
    by (cases "call env [''git'', ''remote'', ''add'', ?key, ?url] w")
  obtain r2 w2 where f: "call env [''git'', ''fetch'', ?key] w1 = (r2, w2)"
    by (cases "call env [''git'', ''fetch'', ?key] w1")
  let ?rc1 = "fst (git env (ext w) (cwd w) [''git'', ''remote'', ''add'', ?key, ?url])"
  let ?rc2 = "fst (git env (ext w1) (cwd w1) [''git'', ''fetch'', ?key])"
  from call_eq [OF a] have
    t1: "trace w1 = trace w @ [Git (cwd w) [''git'', ''remote'', ''add'', ?key, ?url] ?rc1]"
    and c1: "cwd w1 = cwd w"
    and o1: "(\<exists>out. r1 = Inr out) \<and> ?rc1 = 0 \<or> (\<exists>e. r1 = Inl e) \<and> ?rc1 \<noteq> 0"
    by auto
  from call_eq [OF f] have
    t2: "trace w2 = trace w1 @ [Git (cwd w1) [''git'', ''fetch'', ?key] ?rc2]"
    and c2: "cwd w2 = cwd w1" by simp_all
  let ?self1 = "self\<lparr>remotes := dict_set ?key ?url (remotes self)\<rparr>"
  show ?case
  proof (cases r1)
    case (Inl e)
    with Cons.prems a o1 have s: "self' = self" "w' = w1" "?rc1 \<noteq> 0" by (auto simp: Let_def)
    show ?thesis unfolding s(1,2) using t1 c1 s(3)
      by (intro exI [of _ "[Git (cwd w) [''git'', ''remote'', ''add'', ?key, ?url] ?rc1]"]) simp
  next
    case add: (Inr out)
    show ?thesis
    proof (cases r2)
      case (Inl e)
      with Cons.prems a f add have s: "self' = ?self1" "w' = w2" by (auto simp: Let_def)
      show ?thesis unfolding s using t1 t2 c1 c2
        by (intro exI [of _ "[Git (cwd w) [''git'', ''remote'', ''add'', ?key, ?url] ?rc1,
              Git (cwd w1) [''git'', ''fetch'', ?key] ?rc2]"])
           (simp add: dict_set_distinct subset_insertI)
    next
      case (Inr out2)
      with Cons.prems a f add have "users_loop env users ?self1 w2 = (r, self', w')"
        by (simp add: Let_def)
      from Cons.IH [OF this] obtain evs where
        e: "trace w' = trace w2 @ evs" "cwd w' = cwd w2"
        "\<forall>d k url. Git d [''git'', ''remote'', ''add'', k, url] 0 \<in> set evs \<longrightarrow>
           k \<in> fst ` set (remotes self')"
        "fst ` set (remotes ?self1) \<subseteq> fst ` set (remotes self')"
        "distinct (map fst (remotes ?self1)) \<longrightarrow> distinct (map fst (remotes self'))"
        by blast
      from e(4) have sub: "?key \<in> fst ` set (remotes self')"
        "fst ` set (remotes self) \<subseteq> fst ` set (remotes self')" by simp_all
      from e(5) have dist:
        "distinct (map fst (remotes self)) \<longrightarrow> distinct (map fst (remotes self'))"
        by (simp add: dict_set_distinct)
      from e(1,2,3) sub dist t1 t2 c1 c2 show ?thesis
        by (intro exI [of _ "[Git (cwd w) [''git'', ''remote'', ''add'', ?key, ?url] ?rc1,
              Git (cwd w1) [''git'', ''fetch'', ?key] ?rc2] @ evs"]) auto
    qed
  qed
qed

lemma storage_loop_trace:
  "storage_loop env ds self w = (r, self', w') \<Longrightarrow>
     \<exists>evs. trace w' = trace w @ evs \<and> cwd w' = cwd w \<and> no_adds evs \<and>
           remotes self' = remotes self"
proof (induction ds arbitrary: self w)
  case Nil
  then show ?case by simp
next
  case (Cons d ds)
  obtain r1 w1 where c: "call env (merge_command (commit_msg self) d) w = (r1, w1)"
    by (cases "call env (merge_command (commit_msg self) d) w")
  let ?rc = "fst (git env (ext w) (cwd w) (merge_command (commit_msg self) d))"
  from call_eq [OF c] have
    t: "trace w1 = trace w @ [Git (cwd w) (merge_command (commit_msg self) d) ?rc]"
    and cw: "cwd w1 = cwd w" by simp_all
  have na: "no_adds [Git (cwd w) (merge_command (commit_msg self) d) ?rc]"
    by (simp add: no_adds_Cons merge_command_def)
  show ?case
  proof (cases r1)
    case (Inl e)
    with Cons.prems c t cw na show ?thesis by auto
  next
    case (Inr out)
    with Cons.prems c
    have "storage_loop env ds (self\<lparr>modifications := modifications self + 1\<rparr>) w1 = (r, self', w')"
      by simp
    from Cons.IH [OF this] obtain evs where
      "trace w' = trace w1 @ evs" "cwd w' = cwd w1" "no_adds evs" "remotes self' = remotes self"
      by auto
    with t cw na show ?thesis
      by (intro exI [of _ "Git (cwd w) (merge_command (commit_msg self) d) ?rc # evs"])
         (simp add: no_adds_Cons merge_command_def)
  qed
qed

lemma merge_registers:
  assumes "merge env self w = (r, self', w')"
  shows "\<exists>evs. trace w' = trace w @ evs \<and> cwd w' = cwd w \<and>
       (\<forall>d k url. Git d [''git'', ''remote'', ''add'', k, url] 0 \<in> set evs \<longrightarrow>
          k \<in> fst ` set (remotes self')) \<and>
       (distinct (map fst (remotes self)) \<longrightarrow> distinct (map fst (remotes self')))"
proof -
  let ?users = "sort_key (hash_rank env) (unique_logins self)"
  obtain r1 s1 w1 where u: "users_loop env ?users self w = (r1, s1, w1)"
    by (cases "users_loop env ?users self w")
  from users_loop_registers [OF u] obtain evs1 where
    e1: "trace w1 = trace w @ evs1" "cwd w1 = cwd w"
    "\<forall>d k url. Git d [''git'', ''remote'', ''add'', k, url] 0 \<in> set evs1 \<longrightarrow>
       k \<in> fst ` set (remotes s1)"
    "distinct (map fst (remotes self)) \<longrightarrow> distinct (map fst (remotes s1))"
    by blast
  show ?thesis
  proof (cases r1)
    case (Some e)
    with assms u e1 show ?thesis by (auto simp: merge_def)
  next
    case None
    obtain r2 s2 w2 where st: "storage_loop env (storage s1) s1 w1 = (r2, s2, w2)"
      by (cases "storage_loop env (storage s1) s1 w1")
    from storage_loop_trace [OF st] obtain evs2 where
      e2: "trace w2 = trace w1 @ evs2" "cwd w2 = cwd w1" "no_adds evs2" "remotes s2 = remotes s1"
      by blast
    show ?thesis
    proof (cases r2)
      case (Some e)
      with assms u None st have "self' = s2" "w' = w2" by (auto simp: merge_def)
      with e1 e2 show ?thesis
        by (intro exI [of _ "evs1 @ evs2"]) (auto simp: no_adds_def)
    next
      case n2: None
      obtain r3 w3 where c: "call env [''git'', ''submodule'', ''update''] w2 = (r3, w3)"
        by (cases "call env [''git'', ''submodule'', ''update''] w2")
      let ?rc = "fst (git env (ext w2) (cwd w2) [''git'', ''submodule'', ''update''])"
      from call_eq [OF c] have
        t3: "trace w3 = trace w2 @ [Git (cwd w2) [''git'', ''submodule'', ''update''] ?rc]"
        and c3: "cwd w3 = cwd w2" by simp_all
      from assms u None st n2 c have "self' = s2" "w' = w3"
        by (auto simp: merge_def split: sum.splits)
      with e1 e2 t3 c3 show ?thesis
        by (intro exI [of _ "evs1 @ evs2 @ [Git (cwd w2) [''git'', ''submodule'', ''update''] ?rc]"])
           (auto simp: no_adds_def)
    qed
  qed
qed

subsection \<open>The cleanup\<close>

lemma remotes_loop_trace:
  "\<exists>rcs. length rcs = length kvs \<and>
         trace (remotes_loop env kvs w) = trace w @ cleanup_events (cwd w) kvs rcs \<and>
         cwd (remotes_loop env kvs w) = cwd w"
proof (induction kvs arbitrary: w)
  case Nil
  then show ?case by simp
next
  case (Cons kv kvs)
  obtain k v where kv: "kv = (k, v)" by (cases kv)
  obtain r w1 where c: "call env [''git'', ''remote'', ''rm'', k] w = (r, w1)"
    by (cases "call env [''git'', ''remote'', ''rm'', k] w")
  let ?rc = "fst (git env (ext w) (cwd w) [''git'', ''remote'', ''rm'', k])"
  from call_eq [OF c] have
    t: "trace w1 = trace w @ [Git (cwd w) [''git'', ''remote'', ''rm'', k] ?rc]"
    and d: "cwd w1 = cwd w"
    and r: "(\<exists>out. r = Inr out) \<and> ?rc = 0 \<or> (\<exists>e. r = Inl e) \<and> ?rc \<noteq> 0"
    by auto
  show ?case
  proof (cases r)
    case (Inl e)
    let ?w2 = "emit [LogError ''Failed to remove'' [k]] w1"
    from Cons.IH [of ?w2] obtain rcs where
      "length rcs = length kvs"
      "trace (remotes_loop env kvs ?w2) = trace ?w2 @ cleanup_events (cwd ?w2) kvs rcs"
      "cwd (remotes_loop env kvs ?w2) = cwd ?w2" by blast
    with Inl r t d c kv show ?thesis
      by (intro exI [of _ "?rc # rcs"]) simp
  next
    case (Inr out)
    from Cons.IH [of w1] obtain rcs where
      "length rcs = length kvs"
      "trace (remotes_loop env kvs w1) = trace w1 @ cleanup_events (cwd w1) kvs rcs"
      "cwd (remotes_loop env kvs w1) = cwd w1" by blast
    with Inr r t d c kv show ?thesis
      by (intro exI [of _ "?rc # rcs"]) simp
  qed
qed

lemma remote_step_simps [simp]:
  "remote_step d k b (Git d [''git'', ''remote'', ''rm'', k] 0) = False"
  "k' \<noteq> k \<Longrightarrow> remote_step d k b (Git d' [''git'', ''remote'', ''rm'', k'] rc) = b"
  "rc \<noteq> 0 \<Longrightarrow> remote_step d k b (Git d' c rc) = b"
  "remote_step d k b (LogError f args) = b"
  by (simp_all add: remote_step_def)

lemma cleanup_events_other:
  "k \<notin> fst ` set kvs \<Longrightarrow> foldl (remote_step d k) b (cleanup_events d kvs rcs) = b"
  by (induction d kvs rcs arbitrary: b rule: cleanup_events.induct) auto

lemma cleanup_events_removes:
  assumes "length rcs = length kvs" and "(k, v) \<in> set kvs"
  shows "\<exists>rc. Git d [''git'', ''remote'', ''rm'', k] rc \<in> set (cleanup_events d kvs rcs) \<and>
              (rc \<noteq> 0 \<longrightarrow> LogError ''Failed to remove'' [k] \<in> set (cleanup_events d kvs rcs)) \<and>
              (rc = 0 \<and> distinct (map fst kvs) \<longrightarrow>
                 \<not> foldl (remote_step d k) b (cleanup_events d kvs rcs))"
  using assms
proof (induction kvs rcs arbitrary: b rule: list_induct2')
  case (4 kv kvs rc rcs)
  obtain k' v' where kv: "kv = (k', v')" by (cases kv)
  show ?case
  proof (cases "k' = k")
    case True
    show ?thesis
    proof (cases "distinct (map fst (kv # kvs))")
      case dist: True
      with kv True have "k \<notin> fst ` set kvs" by auto
      from cleanup_events_other [OF this] kv True show ?thesis
        by (intro exI [of _ rc]) auto
    next
      case False
      with kv True show ?thesis by (intro exI [of _ rc]) auto
    qed
  next
    case False
    with "4.prems" kv have in_rest: "(k, v) \<in> set kvs" and len: "length rcs = length kvs"
      by auto
    let ?b = "foldl (remote_step d k) b
        (Git d [''git'', ''remote'', ''rm'', k'] rc
         # (if rc = 0 then [] else [LogError ''Failed to remove'' [k']]))"
    from "4.IH" [OF len in_rest, of ?b] obtain rc1 where
      "Git d [''git'', ''remote'', ''rm'', k] rc1 \<in> set (cleanup_events d kvs rcs)"
      "rc1 \<noteq> 0 \<longrightarrow> LogError ''Failed to remove'' [k] \<in> set (cleanup_events d kvs rcs)"
      "rc1 = 0 \<and> distinct (map fst kvs) \<longrightarrow>
         \<not> foldl (remote_step d k) ?b (cleanup_events d kvs rcs)"
      by blast
    with kv show ?thesis
      by (intro exI [of _ rc1]) auto
  qed
qed simp_all

lemma distinct_keys_sort:
  "distinct (map fst (sort_key f kvs)) = distinct (map fst kvs)"
  by (metis distinct_map distinct_sort set_sort)

lemma cleanup_trace:
  "\<exists>rcs. length rcs = length (remotes self) \<and>
         trace (cleanup env self w) =
           trace w @ cleanup_events (cwd w)
             (sort_key (\<lambda>kv. hash_rank env (fst kv)) (remotes self)) rcs \<and>
         cwd (cleanup env self w) = cwd w"
  using remotes_loop_trace [of "sort_key (\<lambda>kv. hash_rank env (fst kv)) (remotes self)" env w]
  by (simp add: cleanup_def)

lemma cleanup_removes:
  assumes "distinct (map fst (remotes s))" and "k \<in> fst ` set (remotes s)"
    and "trace wx = trace w @ before"
  shows "\<exists>evs. trace (cleanup env s wx) = trace w @ before @ evs \<and> no_adds evs \<and>
           (\<exists>rc. Git (cwd wx) [''git'', ''remote'', ''rm'', k] rc \<in> set evs \<and>
                 (rc \<noteq> 0 \<longrightarrow> LogError ''Failed to remove'' [k] \<in> set evs) \<and>
                 (rc = 0 \<longrightarrow> \<not> remote_present (cwd wx) k (trace (cleanup env s wx))))"
proof -
  let ?items = "sort_key (\<lambda>kv. hash_rank env (fst kv)) (remotes s)"
  from cleanup_trace [of s env wx] obtain rcs where
    len: "length rcs = length ?items"
    and t: "trace (cleanup env s wx) = trace wx @ cleanup_events (cwd wx) ?items rcs"
    by auto
  from assms(2) obtain v where kv: "(k, v) \<in> set ?items" by auto
  have dist: "distinct (map fst ?items)" using assms(1) by (simp add: distinct_keys_sort)
  let ?b = "foldl (remote_step (cwd wx) k) False (concat (map flat (trace wx)))"
  from cleanup_events_removes [OF len kv, of "cwd wx" ?b] dist obtain rc where
    rc: "Git (cwd wx) [''git'', ''remote'', ''rm'', k] rc
           \<in> set (cleanup_events (cwd wx) ?items rcs)"
    "rc \<noteq> 0 \<longrightarrow>
       LogError ''Failed to remove'' [k] \<in> set (cleanup_events (cwd wx) ?items rcs)"
    "rc = 0 \<longrightarrow> \<not> foldl (remote_step (cwd wx) k) ?b (cleanup_events (cwd wx) ?items rcs)"
    by blast
  have "remote_present (cwd wx) k (trace (cleanup env s wx)) =
      foldl (remote_step (cwd wx) k) ?b (cleanup_events (cwd wx) ?items rcs)"
    by (simp add: remote_present_def t)
  with rc t assms(3) show ?thesis
    by (intro exI [of _ "cleanup_events (cwd wx) ?items rcs"]) auto
qed


subsection \<open>The walk over the submodules\<close>

lemma same_but_count_refl [simp]: "same_but_count self self"
  unfolding same_but_count_def by (rule exI [of _ "modifications self"]) simp

lemma same_but_count_update [simp]: "same_but_count self (self\<lparr>modifications := n\<rparr>)"
  unfolding same_but_count_def by blast

lemma same_but_count_trans:
  "same_but_count a b \<Longrightarrow> same_but_count b c \<Longrightarrow> same_but_count a c"
  unfolding same_but_count_def by auto

lemma same_but_count_fields:
  "same_but_count self self' \<Longrightarrow>
     remotes self' = remotes self \<and> commit_msg self' = commit_msg self \<and> name self' = name self"
  unfolding same_but_count_def by auto

lemma cd_eq:
  "cd env dir w = (r, w') \<Longrightarrow>
     (\<exists>ok. trace w' = trace w @ [Chdir dir ok]) \<and>
     (case chdir env (ext w) (cwd w) dir of
        None \<Rightarrow> r = Some OSError \<and> cwd w' = cwd w
      | Some p \<Rightarrow> r = None \<and> cwd w' = p)"
  by (auto simp: cd_def split: option.splits)

lemma grouped_eq:
  "grouped f w = Some (r, s, w') \<Longrightarrow>
     \<exists>w1. f (w\<lparr>trace := []\<rparr>) = Some (r, s, w1) \<and>
          w' = w1\<lparr>trace := trace w @ [Nested (trace w1)]\<rparr>"
  by (auto simp: grouped_def split: option.splits)

lemma sub_pass_self:
  "sub_pass walk env g info0 orgname nm self w = Some (r, self', w') \<Longrightarrow>
     same_but_count self self'"
  by (auto simp: sub_pass_def split: prod.splits sum.splits option.splits)

lemma sub_step_trace:
  assumes "sub_step walk env g info0 cwd0 dir orgname nm self w = Some (r, self', w')"
  shows "\<exists>evs. trace w' = trace w @ evs \<and> list_all step_event evs \<and> same_but_count self self'"
proof -
  obtain r1 w1 where c1: "cd env dir w = (r1, w1)" by (cases "cd env dir w")
  from cd_eq [OF c1] obtain ok1 where t1: "trace w1 = trace w @ [Chdir dir ok1]" by blast
  let ?mid = "case r1 of Some e \<Rightarrow> Some (Some e, self, w1)
      | None \<Rightarrow> grouped (sub_pass walk env g info0 orgname nm self) w1"
  from assms c1 obtain r2 s2 w2 where mid: "?mid = Some (r2, s2, w2)"
    by (auto simp: sub_step_def split: option.splits prod.splits)
  have m: "(\<exists>evs. trace w2 = trace w1 @ evs \<and> list_all step_event evs) \<and> same_but_count self s2"
  proof (cases r1)
    case (Some e)
    with mid show ?thesis by simp
  next
    case None
    with mid have "grouped (sub_pass walk env g info0 orgname nm self) w1 = Some (r2, s2, w2)"
      by simp
    from grouped_eq [OF this] sub_pass_self show ?thesis
      by (fastforce simp: step_event_def)
  qed
  obtain r3 w3 where c3: "cd env cwd0 w2 = (r3, w3)" by (cases "cd env cwd0 w2")
  from cd_eq [OF c3] obtain ok3 where t3: "trace w3 = trace w2 @ [Chdir cwd0 ok3]" by blast
  from assms c1 mid c3 have "self' = s2" "w' = w3"
    by (auto simp: sub_step_def split: option.splits prod.splits)
  with m t1 t3 show ?thesis
    by (auto simp: step_event_def)
qed

lemma lines_walk_step:
  "concat (l1 # l2 # lines) \<noteq> [] \<Longrightarrow>
   lines_walk walk env g info0 cwd0 (l1 # l2 # lines) self w =
     (case parse_dir l1 of
        Inl e \<Rightarrow> Some (Some e, self, w)
      | Inr dir \<Rightarrow>
     (case parse_origin l2 of
        Inl e \<Rightarrow> Some (Some e, self, w)
      | Inr (orgname, nm) \<Rightarrow>
     (case sub_step walk env g info0 cwd0 dir orgname nm self w of
        None \<Rightarrow> None
      | Some (Some e, self1, w1) \<Rightarrow> Some (Some e, self1, w1)
      | Some (None, self1, w1) \<Rightarrow> lines_walk walk env g info0 cwd0 lines self1 w1)))"
  by (subst lines_walk.simps) (simp only: if_False)

lemma lines_walk_trace:
  "lines_walk walk env g info0 cwd0 lines self w = Some (r, self', w') \<Longrightarrow>
     \<exists>evs. trace w' = trace w @ evs \<and> list_all step_event evs \<and> same_but_count self self'"
proof (induction walk env g info0 cwd0 lines self w rule: lines_walk.induct)
  case (1 walk env g info0 cwd0 self w)
  then show ?case by simp
next
  case (2 walk env g info0 cwd0 l1 self w)
  then show ?case by (auto split: if_splits sum.splits)
next
  case (3 walk env g info0 cwd0 l1 l2 lines self w)
  show ?case
  proof (cases "concat (l1 # l2 # lines) = []")
    case True
    with "3.prems" show ?thesis by simp
  next
    case False
    note prems = "3.prems" [unfolded lines_walk_step [OF False]]
    show ?thesis
    proof (cases "parse_dir l1")
      case (Inl e)
      with prems show ?thesis by simp
    next
      case dir: (Inr dir)
      show ?thesis
      proof (cases "parse_origin l2")
        case (Inl e)
        with prems dir show ?thesis by simp
      next
        case (Inr on)
        obtain orgname nm where on: "on = (orgname, nm)" by (cases on)
        from prems dir Inr on obtain r1 s1 w1 where
          st: "sub_step walk env g info0 cwd0 dir orgname nm self w = Some (r1, s1, w1)"
          by (auto split: option.splits)
        from sub_step_trace [OF st] obtain evs1 where
          e1: "trace w1 = trace w @ evs1" "list_all step_event evs1" "same_but_count self s1"
          by blast
        show ?thesis
        proof (cases r1)
          case (Some e)
          with prems dir Inr on st e1 show ?thesis by auto
        next
          case None
          with prems dir Inr on st
          have rest: "lines_walk walk env g info0 cwd0 lines s1 w1 = Some (r, self', w')" by simp
          from "3.IH" [OF False dir Inr on [symmetric] st refl None refl rest]
          obtain evs2 where
            "trace w' = trace w1 @ evs2" "list_all step_event evs2" "same_but_count s1 self'"
            by auto
          with e1 show ?thesis
            by (intro exI [of _ "evs1 @ evs2"]) (auto intro: same_but_count_trans)
        qed
      qed
    qed
  qed
qed

lemma submodules_trace:
  assumes "submodules n env g info0 self w = Some (r, self', w')"
  shows "\<exists>rc0 evs tail. level_events self r self' w w' rc0 evs tail"
proof (cases n)
  case 0
  with assms show ?thesis by simp
next
  case (Suc m)
  let ?walk = "submodules m env g info0"
  from assms Suc have body: "submodules_body ?walk env g info0 self w = Some (r, self', w')"
    by simp
  obtain r1 w1 where c: "call env foreach_command w = (r1, w1)"
    by (cases "call env foreach_command w")
  let ?first = "fst (git env (ext w) (cwd w) foreach_command)"
  from call_eq [OF c] have t1: "trace w1 = trace w @ [Git (cwd w) foreach_command ?first]"
    and c1: "cwd w1 = cwd w" by simp_all
  show ?thesis
  proof (cases r1)
    case (Inl e)
    with body c have "self' = self" "w' = w1" "r = Some e"
      by (simp_all add: submodules_body_def)
    with t1 have "level_events self r self' w w' ?first [] []"
      by (simp add: level_events_def)
    then show ?thesis by blast
  next
    case (Inr out)
    with body c obtain r2 s2 w2 where
      lw: "lines_walk ?walk env g info0 (cwd w1) (split_on LF out) self w1 = Some (r2, s2, w2)"
      by (auto simp: submodules_body_def split: option.splits)
    from lines_walk_trace [OF lw] obtain evs where
      t2: "trace w2 = trace w1 @ evs" and se: "list_all step_event evs"
      and sb: "same_but_count self s2" by blast
    note msg = same_but_count_fields [OF sb]
    show ?thesis
    proof (cases "r2 = None \<and> modifications s2 \<noteq> 0")
      case False
      with body c Inr lw have "self' = s2" "w' = w2"
        by (auto simp: submodules_body_def split: option.splits if_splits)
      moreover from False body c Inr lw have "r = None \<longrightarrow> modifications s2 = 0"
        by (auto simp: submodules_body_def split: option.splits if_splits)
      ultimately have "level_events self r self' w w' ?first evs []"
        using t1 t2 se sb by (auto simp: level_events_def)
      then show ?thesis by blast
    next
      case True
      obtain r3 w3 where cc: "call env (commit_command (commit_msg s2)) w2 = (r3, w3)"
        by (cases "call env (commit_command (commit_msg s2)) w2")
      let ?last = "fst (git env (ext w2) (cwd w2) (commit_command (commit_msg s2)))"
      from call_eq [OF cc] have
        t3: "trace w3 = trace w2 @ [Git (cwd w2) (commit_command (commit_msg s2)) ?last]"
        and c3: "cwd w3 = cwd w2"
        and o3: "(\<exists>out. r3 = Inr out) \<and> ?last = 0 \<or> (\<exists>e. r3 = Inl e) \<and> ?last \<noteq> 0"
        by auto
      from True body c Inr lw cc have s: "self' = s2" "w' = w3"
        by (auto simp: submodules_body_def split: sum.splits option.splits if_splits)
      from True body c Inr lw cc o3 have ok: "r = None \<longrightarrow> ?last = 0"
        by (auto simp: submodules_body_def split: sum.splits option.splits if_splits)
      from s t1 t2 t3 c3 se sb msg True ok
      have "level_events self r self' w w' ?first evs
              [Git (cwd w2) (commit_command (commit_msg s2)) ?last]"
        by (auto simp: level_events_def)
      then show ?thesis by blast
    qed
  qed
qed

subsection \<open>The working directory\<close>

lemma sub_step_cwd:
  assumes "\<forall>e c. chdir env e c cwd0 = Some cwd0"
    and "sub_step walk env g info0 cwd0 dir orgname nm self w = Some (r, self', w')"
  shows "cwd w' = cwd0"
proof -
  from assms(2) obtain r2 s2 w2 r3 w3 where c3: "cd env cwd0 w2 = (r3, w3)" and w': "w' = w3"
    by (auto simp: sub_step_def split: option.splits prod.splits)
  from cd_eq [OF c3] assms(1) w' show ?thesis by simp
qed

lemma lines_walk_cwd:
  "\<forall>e c. chdir env e c cwd0 = Some cwd0 \<Longrightarrow> cwd w = cwd0 \<Longrightarrow>
   lines_walk walk env g info0 cwd0 lines self w = Some (r, self', w') \<Longrightarrow> cwd w' = cwd0"
proof (induction walk env g info0 cwd0 lines self w rule: lines_walk.induct)
  case (1 walk env g info0 cwd0 self w)
  then show ?case by simp
next
  case (2 walk env g info0 cwd0 l1 self w)
  then show ?case by (auto split: if_splits sum.splits)
next
  case (3 walk env g info0 cwd0 l1 l2 lines self w)
  show ?case
  proof (cases "concat (l1 # l2 # lines) = []")
    case True
    with "3.prems" show ?thesis by simp
  next
    case False
    note prems = "3.prems"(3) [unfolded lines_walk_step [OF False]]
    show ?thesis
    proof (cases "parse_dir l1")
      case (Inl e)
      with prems "3.prems"(2) show ?thesis by simp
    next
      case dir: (Inr dir)
      show ?thesis
      proof (cases "parse_origin l2")
        case (Inl e)
        with prems dir "3.prems"(2) show ?thesis by simp
      next
        case (Inr on)
        obtain orgname nm where on: "on = (orgname, nm)" by (cases on)
        from prems dir Inr on obtain r1 s1 w1 where
          st: "sub_step walk env g info0 cwd0 dir orgname nm self w = Some (r1, s1, w1)"
          by (auto split: option.splits)
        have c1: "cwd w1 = cwd0" using sub_step_cwd [OF "3.prems"(1) st] .
        show ?thesis
        proof (cases r1)
          case (Some e)
          with prems dir Inr on st c1 show ?thesis by auto
        next
          case None
          with prems dir Inr on st
          have rest: "lines_walk walk env g info0 cwd0 lines s1 w1 = Some (r, self', w')" by simp
          from "3.IH" [OF False dir Inr on [symmetric] st refl None refl "3.prems"(1) c1 rest]
          show ?thesis .
        qed
      qed
    qed
  qed
qed

lemma submodules_body_cwd:
  assumes "\<forall>e c. chdir env e c (cwd w) = Some (cwd w)"
    and "submodules_body walk env g info0 self w = Some (r, self', w')"
  shows "cwd w' = cwd w"
proof -
  obtain r1 w1 where c: "call env foreach_command w = (r1, w1)"
    by (cases "call env foreach_command w")
  from call_eq [OF c] have c1: "cwd w1 = cwd w" by simp
  show ?thesis
  proof (cases r1)
    case (Inl e)
    with assms(2) c c1 show ?thesis by (simp add: submodules_body_def)
  next
    case (Inr out)
    with assms(2) c obtain r2 s2 w2 where
      lw: "lines_walk walk env g info0 (cwd w1) (split_on LF out) self w1 = Some (r2, s2, w2)"
      by (auto simp: submodules_body_def split: option.splits)
    from lines_walk_cwd [OF _ _ lw] assms(1) c1 have c2: "cwd w2 = cwd w" by simp
    from assms(2) c Inr lw c2 show ?thesis
      by (auto simp: submodules_body_def split: option.splits if_splits prod.splits sum.splits
          dest!: call_eq)
  qed
qed


end
